theory Spec2Isabelle
  imports Complex_Main "HOL-Library.Monad_Syntax"
begin

section \<open>Hyperband search of hyperband.py\<close>

text \<open>
  The theory embeds the block under \<^verbatim>\<open>if __name__ == '__main__':\<close> of
  \<^verbatim>\<open>src/neural/handwriting/hyperband/hyperband.py\<close> (lines 294 to 403): the sampler
  \<^verbatim>\<open>get_random_hyperparameter_configuration\<close>, the bracket schedule and the
  successive-halving loop with its running totals.

  The script is Python 2: it opens its files with \<^verbatim>\<open>open(name, 'w+', 0)\<close>
  (lines 221 and 345), which Python 3 refuses for a text file, and it does not import
  \<^verbatim>\<open>division\<close> from \<^verbatim>\<open>__future__\<close>. So \<^verbatim>\<open>/\<close> between two ints is floor
  division, and \<^verbatim>\<open>**\<close> of two ints is an int for a non-negative exponent and a float
  for a negative one.

  Python floats are IEEE doubles, and every float operation of the block rounds its exact
  result to the nearest double, ties to even: the counts the schedule keeps and the
  ranges the sampler reaches both turn on that rounding. \<^verbatim>\<open>math.log\<close> and \<^verbatim>\<open>pow\<close> are
  taken to return the double nearest to the exact value. The exponent range of a double
  is not modelled (no overflow, no subnormal numbers).

  The three things the block takes from outside are parameters of the model: the random
  generator \<^verbatim>\<open>np.random.rand\<close>, the training run \<^verbatim>\<open>main\<close> (Theano, the clock) and
  \<^verbatim>\<open>np.argsort\<close>.
\<close>

subsection \<open>Python floats\<close>

text \<open>
  \<open>rne q\<close> is the whole number nearest to \<open>q\<close>, the even one of two equally near.
  \<open>binade x\<close> is the exponent \<open>e\<close> with \<open>2 ^ e \<le> |x| < 2 ^ (e + 1)\<close>, and \<open>fl x\<close> is
  the double nearest to \<open>x\<close>: \<open>x\<close> rounded to a multiple of \<open>2 ^ (e - 52)\<close>, which leaves 53
  significant bits.
\<close>

definition rne :: "real \<Rightarrow> int" where
  "rne q = (let f = \<lfloor>q\<rfloor>; d = q - of_int f
            in if d < 1 / 2 then f else if 1 / 2 < d then f + 1 else if even f then f else f + 1)"

definition binade :: "real \<Rightarrow> int" where
  "binade x = \<lfloor>log 2 \<bar>x\<bar>\<rfloor>"

definition fl :: "real \<Rightarrow> real" where
  "fl x = (if x = 0 then 0
           else of_int (rne (x / 2 powr of_int (binade x - 52))) * 2 powr of_int (binade x - 52))"

subsection \<open>Python 2 numbers\<close>

datatype pynum = PyInt int | PyFloat real

text \<open>An int that meets a float in an operation is converted to the nearest double.\<close>

fun to_float :: "pynum \<Rightarrow> real" where
  "to_float (PyInt a) = fl (of_int a)"
| "to_float (PyFloat x) = x"

text \<open>\<^verbatim>\<open>int(x)\<close> of a float truncates toward zero.\<close>

definition trunc :: "real \<Rightarrow> int" where
  "trunc x = (if 0 \<le> x then \<lfloor>x\<rfloor> else \<lceil>x\<rceil>)"

fun py_int :: "pynum \<Rightarrow> int" where
  "py_int (PyInt a) = a"
| "py_int (PyFloat x) = trunc x"

text \<open>
  \<^verbatim>\<open>math.ceil\<close> converts its argument to a float and returns a float in Python 2; the
  ceiling of a double is a double.
\<close>

definition math_ceil :: "pynum \<Rightarrow> pynum" where
  "math_ceil x = PyFloat (of_int \<lceil>to_float x\<rceil>)"

fun py_mul :: "pynum \<Rightarrow> pynum \<Rightarrow> pynum" where
  "py_mul (PyInt a) (PyInt b) = PyInt (a * b)"
| "py_mul x y = PyFloat (fl (to_float x * to_float y))"

text \<open>
  \<^verbatim>\<open>a / b\<close>: floor division on two ints, float division once a float is involved;
  \<open>None\<close> is ZeroDivisionError.
\<close>

fun py_div :: "pynum \<Rightarrow> pynum \<Rightarrow> pynum option" where
  "py_div (PyInt a) (PyInt b) = (if b = 0 then None else Some (PyInt (a div b)))"
| "py_div x y = (if to_float y = 0 then None else Some (PyFloat (fl (to_float x / to_float y))))"

text \<open>
  \<^verbatim>\<open>a ** b\<close> on two ints: an int when \<open>0 \<le> b\<close>, else the float \<^verbatim>\<open>pow(float(a), float(b))\<close>,
  the double nearest to \<open>1 / float(a) ^ (- b)\<close> (a rung or bracket index is far below
  \<open>2 ^ 53\<close> and converts to a double unchanged); \<open>None\<close> is the ZeroDivisionError of
  \<^verbatim>\<open>0 ** b\<close> for a negative \<open>b\<close>.
\<close>

definition py_pow :: "int \<Rightarrow> int \<Rightarrow> pynum option" where
  "py_pow a b =
     (if 0 \<le> b then Some (PyInt (a ^ nat b))
      else if a = 0 then None
      else Some (PyFloat (fl (1 / to_float (PyInt a) ^ nat (- b)))))"

subsection \<open>The bracket schedule (lines 347 to 359)\<close>

text \<open>
  \<^verbatim>\<open>logeta = lambda x : math.log(x)/math.log(eta)\<close>. \<^verbatim>\<open>math.log\<close> raises ValueError
  on an argument that is not positive, and the division raises ZeroDivisionError when
  \<^verbatim>\<open>math.log(eta)\<close> is zero; both are \<open>None\<close>.
\<close>

definition math_log :: "int \<Rightarrow> real option" where
  "math_log x = (if x \<le> 0 then None else Some (fl (ln (to_float (PyInt x)))))"

definition logeta :: "int \<Rightarrow> int \<Rightarrow> pynum option" where
  "logeta eta x = do {
     a \<leftarrow> math_log x;
     b \<leftarrow> math_log eta;
     py_div (PyFloat a) (PyFloat b)
   }"

definition s_max :: "int \<Rightarrow> int \<Rightarrow> int option" where
  "s_max eta max_iter = do {
     l \<leftarrow> logeta eta max_iter;
     Some (py_int l)
   }"

definition B :: "int \<Rightarrow> int \<Rightarrow> int" where
  "B sm max_iter = (sm + 1) * max_iter"

text \<open>
  Line 358: \<^verbatim>\<open>n = int(math.ceil(B/max_iter/(s+1)*eta**s))\<close>, with \<open>Bv\<close> the value of
  \<^verbatim>\<open>B\<close>.
\<close>

definition bracket_n :: "int \<Rightarrow> int \<Rightarrow> int \<Rightarrow> int \<Rightarrow> int option" where
  "bracket_n eta max_iter Bv s = do {
     q1 \<leftarrow> py_div (PyInt Bv) (PyInt max_iter);
     q2 \<leftarrow> py_div q1 (PyInt (s + 1));
     p \<leftarrow> py_pow eta s;
     Some (py_int (math_ceil (py_mul q2 p)))
   }"

text \<open>Line 359: \<^verbatim>\<open>r = max_iter*eta**(-s)\<close>.\<close>

definition bracket_r :: "int \<Rightarrow> int \<Rightarrow> int \<Rightarrow> pynum option" where
  "bracket_r eta max_iter s = do {
     p \<leftarrow> py_pow eta (- s);
     Some (py_mul (PyInt max_iter) p)
   }"

text \<open>
  The configuration count the specification writes for a bracket, in real arithmetic:
  \<open>ceil (B / max_iter / (s + 1) * eta ^ s)\<close>.
\<close>

definition spec_n :: "int \<Rightarrow> int \<Rightarrow> int \<Rightarrow> int \<Rightarrow> int" where
  "spec_n eta max_iter Bv s =
     \<lceil>real_of_int Bv / real_of_int max_iter / real_of_int (s + 1) * real_of_int eta ^ nat s\<rceil>"

subsection \<open>The sampler (lines 310 to 318)\<close>

record config =
  nfilters :: int
  batch_size_train :: int
  M :: real
  LR :: real

text \<open>
  \<^verbatim>\<open>x = np.random.rand(nvariables)\<close> with \<^verbatim>\<open>nvariables = 4\<close>: one draw is four
  doubles of \<open>[0, 1)\<close>, and the function is a function of its draw. The literals of
  lines 313 to 316 are doubles themselves.
\<close>

type_synonym draw = "real \<times> real \<times> real \<times> real"

definition get_random_hyperparameter_configuration :: "draw \<Rightarrow> config" where
  "get_random_hyperparameter_configuration x =
     (case x of (x0, x1, x2, x3) \<Rightarrow>
        \<lparr>nfilters = 10 + trunc (fl (90 * x0)),
         batch_size_train = trunc (fl (2 powr fl (4 + fl (4 * x1)))),
         M = x2,
         LR = fl (10 powr fl (- 2 + fl (1.5 * x3)))\<rparr>)"

text \<open>A value \<^verbatim>\<open>np.random.rand\<close> can return: a double of \<open>[0, 1)\<close>.\<close>

definition unit_double :: "real \<Rightarrow> bool" where
  "unit_double x \<longleftrightarrow> 0 \<le> x \<and> x < 1 \<and> fl x = x"

text \<open>Whether a batch size is a power of two.\<close>

definition power_of_two :: "int \<Rightarrow> bool" where
  "power_of_two n \<longleftrightarrow> n \<in> (\<lambda>k. 2 ^ k) ` {0..nat n}"

text \<open>A double strictly between the largest power the sampler can form and \<open>10 ^ (- 1 / 2)\<close>.\<close>

definition LR_top :: real where
  "LR_top = 5696652996790542 / 2 ^ 54"

subsection \<open>The search state and the outside world\<close>

text \<open>
  \<open>nevals\<close> and \<open>best_val_acc\<close> are the two running totals of the script;
  \<open>hyperband_evals\<close> holds the lines this run appends to \<^verbatim>\<open>hyperband_evals.txt\<close>, each
  a pair of the two numbers written (not their decimal text). \<open>calls\<close> is the history of the calls to
  \<^verbatim>\<open>main\<close> (configuration, \<^verbatim>\<open>time_limit\<close>, and the two results read from its return
  value), and \<open>draws\<close> counts the draws taken from the random generator.
\<close>

record search_state =
  nevals :: real
  best_val_acc :: real
  hyperband_evals :: "(real \<times> real) list"
  calls :: "(config \<times> real \<times> real \<times> real) list"
  draws :: nat

text \<open>
  \<open>rand k\<close> is the \<open>k\<close>-th draw of \<^verbatim>\<open>np.random.rand(4)\<close>; \<open>main k t r\<close> is what the
  \<open>k\<close>-th call of \<^verbatim>\<open>main\<close> returns in \<^verbatim>\<open>results[0]\<close> and \<^verbatim>\<open>results[1]\<close> for the
  configuration \<open>t\<close> and the time limit \<open>r\<close>; \<open>argsort\<close> is \<^verbatim>\<open>np.argsort\<close>.
\<close>

record env =
  rand :: "nat \<Rightarrow> draw"
  main :: "nat \<Rightarrow> config \<Rightarrow> real \<Rightarrow> real \<times> real"
  argsort :: "real list \<Rightarrow> nat list"

definition init_state :: search_state where
  "init_state = \<lparr>nevals = 0, best_val_acc = 0, hyperband_evals = [], calls = [], draws = 0\<rparr>"

subsection \<open>One evaluation (lines 371 to 397)\<close>

text \<open>
  \<^verbatim>\<open>val_loss = 100.0 - val_acc\<close> and \<^verbatim>\<open>nevals = nevals + time_spent / 60\<close> are float
  operations (\<^verbatim>\<open>time_spent\<close> is a difference of two readings of \<^verbatim>\<open>time.time()\<close>).
\<close>

definition evaluate :: "env \<Rightarrow> pynum \<Rightarrow> config \<Rightarrow> real list \<times> search_state \<Rightarrow> real list \<times> search_state" where
  "evaluate E r_i t acc =
     (case acc of (val_losses, st) \<Rightarrow>
        (let results = main E (length (calls st)) t (to_float r_i);
             val_acc = fst results;
             time_spent = snd results;
             val_loss = fl (100 - val_acc);
             nevals' = fl (nevals st + fl (time_spent / 60));
             best' = (if val_acc > best_val_acc st then val_acc else best_val_acc st)
         in (val_losses @ [val_loss],
             st\<lparr>nevals := nevals',
                best_val_acc := best',
                hyperband_evals := hyperband_evals st @ [(nevals', best')],
                calls := calls st @ [(t, to_float r_i, val_acc, time_spent)]\<rparr>)))"

subsection \<open>Pruning (lines 399 and 400)\<close>

text \<open>\<^verbatim>\<open>xs[0:k]\<close>: a negative \<open>k\<close> counts from the end.\<close>

definition py_slice_to :: "'a list \<Rightarrow> int \<Rightarrow> 'a list" where
  "py_slice_to xs k = (if 0 \<le> k then take (nat k) xs else take (nat (int (length xs) + k)) xs)"

text \<open>\<^verbatim>\<open>Tr[i]\<close> for an index that \<^verbatim>\<open>np.argsort\<close> returned; \<open>None\<close> is IndexError.\<close>

definition py_index :: "'a list \<Rightarrow> nat \<Rightarrow> 'a option" where
  "py_index xs i = (if i < length xs then Some (xs ! i) else None)"

definition prune :: "env \<Rightarrow> config list \<Rightarrow> real list \<Rightarrow> int \<Rightarrow> config list option" where
  "prune E Tr val_losses k = those (map (py_index Tr) (py_slice_to (argsort E val_losses) k))"

subsection \<open>Successive halving (lines 362 to 400)\<close>

text \<open>One pass of the loop \<^verbatim>\<open>for i in range(s+1)\<close>.\<close>

definition rung :: "env \<Rightarrow> int \<Rightarrow> int \<Rightarrow> pynum \<Rightarrow> int \<Rightarrow> config list \<Rightarrow> search_state \<Rightarrow> (config list \<times> search_state) option" where
  "rung E eta n r i Tr st = do {
     p \<leftarrow> py_pow eta (- i);
     let n_i = py_mul (PyInt n) p;
     q \<leftarrow> py_pow eta i;
     let r_i = py_mul r q;
     let run = fold (evaluate E r_i) Tr ([], st);
     k \<leftarrow> py_div n_i (PyInt eta);
     Tr' \<leftarrow> prune E Tr (fst run) (py_int k);
     Some (Tr', snd run)
   }"

fun halving :: "env \<Rightarrow> int \<Rightarrow> int \<Rightarrow> pynum \<Rightarrow> int list \<Rightarrow> config list \<Rightarrow> search_state \<Rightarrow> (config list \<times> search_state) option" where
  "halving E eta n r [] Tr st = Some (Tr, st)"
| "halving E eta n r (i # rungs) Tr st =
     (case rung E eta n r i Tr st of
        None \<Rightarrow> None
      | Some (Tr', st') \<Rightarrow> halving E eta n r rungs Tr' st')"

text \<open>Line 362: \<^verbatim>\<open>n\<close> fresh configurations; \<^verbatim>\<open>range(n)\<close> is empty for \<open>n \<le> 0\<close>.\<close>

definition sample_pool :: "env \<Rightarrow> int \<Rightarrow> search_state \<Rightarrow> config list \<times> search_state" where
  "sample_pool E n st =
     (map (\<lambda>j. get_random_hyperparameter_configuration (rand E (draws st + j))) [0..<nat n],
      st\<lparr>draws := draws st + nat n\<rparr>)"

subsection \<open>The outer loop (lines 349 to 401)\<close>

text \<open>One bracket: the body of \<^verbatim>\<open>for s in reversed(range(s_max + 1))\<close>.\<close>

definition bracket :: "env \<Rightarrow> int \<Rightarrow> int \<Rightarrow> int \<Rightarrow> int \<Rightarrow> search_state \<Rightarrow> (config list \<times> search_state) option" where
  "bracket E eta max_iter Bv s st = do {
     n \<leftarrow> bracket_n eta max_iter Bv s;
     r \<leftarrow> bracket_r eta max_iter s;
     let pool = sample_pool E n st;
     halving E eta n r [0..s] (fst pool) (snd pool)
   }"

text \<open>
  The pool a bracket ends with is dropped: the next bracket assigns \<^verbatim>\<open>Tr\<close> afresh,
  and only the search state goes on.
\<close>

fun brackets :: "env \<Rightarrow> int \<Rightarrow> int \<Rightarrow> int \<Rightarrow> int list \<Rightarrow> search_state \<Rightarrow> search_state option" where
  "brackets E eta max_iter Bv [] st = Some st"
| "brackets E eta max_iter Bv (s # ss) st =
     (case bracket E eta max_iter Bv s st of
        None \<Rightarrow> None
      | Some (Tr, st') \<Rightarrow> brackets E eta max_iter Bv ss st')"

definition hyperband :: "env \<Rightarrow> int \<Rightarrow> int \<Rightarrow> search_state option" where
  "hyperband E eta max_iter = do {
     sm \<leftarrow> s_max eta max_iter;
     brackets E eta max_iter (B sm max_iter) (rev [0..sm]) init_state
   }"

subsection \<open>What the model asks of \<^verbatim>\<open>np.argsort\<close>\<close>

text \<open>
  \<^verbatim>\<open>np.argsort(v)\<close> returns the indices of \<open>v\<close>, each once, in an order that makes
  the values ascend. The script calls it with the default \<^verbatim>\<open>kind\<close> (quicksort), which
  NumPy does not document as stable, so nothing is asked about equal values.
\<close>

definition argsort_ok :: "(real list \<Rightarrow> nat list) \<Rightarrow> bool" where
  "argsort_ok f \<longleftrightarrow>
     (\<forall>v. distinct (f v) \<and> set (f v) = {0..<length v} \<and> sorted (map (\<lambda>i. v ! i) (f v)))"

text \<open>
  The ranking the specification describes: ascending by value, equal values in the order
  of their indices (a stable sort). The code of \<^verbatim>\<open>np.argsort\<close> is NumPy's and not part of
  the repository.
\<close>

definition stable_argsort :: "real list \<Rightarrow> nat list" where
  "stable_argsort v = sort_key (\<lambda>i. v ! i) [0..<length v]"

subsection \<open>Reference points for the claims\<close>

text \<open>
  The number of configurations line 400 keeps at rung \<open>i\<close>, \<^verbatim>\<open>int(n_i/eta)\<close> with
  \<^verbatim>\<open>n_i = n*eta**(-i)\<close>, as \<open>rung\<close> computes it.
\<close>

definition keep_count :: "int \<Rightarrow> int \<Rightarrow> int \<Rightarrow> int option" where
  "keep_count eta n i = do {
     p \<leftarrow> py_pow eta (- i);
     k \<leftarrow> py_div (py_mul (PyInt n) p) (PyInt eta);
     Some (py_int k)
   }"

text \<open>The \<^verbatim>\<open>n_i\<close> of line 365 as a float (line 400 divides it by \<^verbatim>\<open>eta\<close>).\<close>

definition float_n_i :: "int \<Rightarrow> int \<Rightarrow> int \<Rightarrow> real option" where
  "float_n_i eta n i = do {
     p \<leftarrow> py_pow eta (- i);
     Some (to_float (py_mul (PyInt n) p))
   }"

text \<open>
  The log the specification describes, computed from the history of calls alone: one
  record per call, holding the cost summed from \<open>c\<close> (a float sum) and the best accuracy
  seen from \<open>b\<close> on.
\<close>

fun expected_log :: "real \<Rightarrow> real \<Rightarrow> (config \<times> real \<times> real \<times> real) list \<Rightarrow> (real \<times> real) list" where
  "expected_log c b [] = []"
| "expected_log c b ((t, r, val_acc, time_spent) # cs) =
     (fl (c + fl (time_spent / 60)), max b val_acc)
       # expected_log (fl (c + fl (time_spent / 60))) (max b val_acc) cs"

text \<open>
  The log of a state is the one described, and the two running totals are its last
  record (or \<open>(0, 0)\<close> before the first call).
\<close>

definition totals_logged :: "search_state \<Rightarrow> bool" where
  "totals_logged st \<longleftrightarrow>
     hyperband_evals st = expected_log 0 0 (calls st)
     \<and> (nevals st, best_val_acc st) = last ((0, 0) # hyperband_evals st)"

text \<open>
  \<open>tracked st0 st\<close>: the calls of \<open>st\<close> continue those of \<open>st0\<close>, no accuracy returned
  since \<open>st0\<close> exceeds \<open>best_val_acc\<close>, and \<open>best_val_acc\<close> has not gone down.
\<close>

definition tracked :: "search_state \<Rightarrow> search_state \<Rightarrow> bool" where
  "tracked st0 st \<longleftrightarrow>
     (\<exists>new. calls st = calls st0 @ new \<and> (\<forall>c \<in> set new. fst (snd (snd c)) \<le> best_val_acc st))
     \<and> best_val_acc st0 \<le> best_val_acc st"

text \<open>
  A world to run the model in: the \<open>k\<close>-th draw is \<open>(0, 0, (k mod 128) / 128, 0)\<close>, so
  that the momentum \<open>M\<close> tells the configurations apart; the \<open>k\<close>-th training run returns
  the accuracy \<open>37 k mod 50\<close> and takes 60 seconds; the sort is the stable one.
\<close>

definition demo_env :: env where
  "demo_env = \<lparr>rand = (\<lambda>k. (0, 0, real (k mod 128) / 128, 0)),
               main = (\<lambda>k t r. (real ((k * 37) mod 50), 60)),
               argsort = stable_argsort\<rparr>"

definition demo_pool :: "config list" where
  "demo_pool = fst (sample_pool demo_env 9 init_state)"

definition demo_start :: search_state where
  "demo_start = snd (sample_pool demo_env 9 init_state)"

subsection \<open>Rounding to a double\<close>

lemma rne_of_int: "rne (of_int m) = m"
  by (simp add: rne_def)

lemma rne_floor_le: "\<lfloor>q\<rfloor> \<le> rne q"
  by (simp add: rne_def Let_def)

lemma rne_le_floor_Suc: "rne q \<le> \<lfloor>q\<rfloor> + 1"
  by (simp add: rne_def Let_def)

lemma rne_ge: "of_int m \<le> q \<Longrightarrow> m \<le> rne q"
  by (meson le_floor_iff order_trans rne_floor_le)

lemma rne_le:
  assumes "q \<le> of_int m"
  shows "rne q \<le> m"
proof (cases "q = of_int m")
  case True
  then show ?thesis by (simp add: rne_of_int)
next
  case False
  with assms have "q < of_int m" by simp
  then have "\<lfloor>q\<rfloor> < m" by (simp add: floor_less_iff)
  then show ?thesis using rne_le_floor_Suc [of q] by simp
qed

lemma rne_mono:
  assumes "q \<le> q'"
  shows "rne q \<le> rne q'"
proof (cases "\<lfloor>q\<rfloor> = \<lfloor>q'\<rfloor>")
  case True
  then show ?thesis using assms by (simp add: rne_def Let_def)
next
  case False
  moreover have "\<lfloor>q\<rfloor> \<le> \<lfloor>q'\<rfloor>" using assms by (rule floor_mono)
  ultimately have "\<lfloor>q\<rfloor> + 1 \<le> \<lfloor>q'\<rfloor>" by simp
  then show ?thesis using rne_le_floor_Suc [of q] rne_floor_le [of q'] by linarith
qed

lemma rne_minus: "rne (- q) = - rne q"
proof (cases "q = of_int \<lfloor>q\<rfloor>")
  case True
  then obtain m where "q = of_int m" ..
  then have "rne (- q) = rne (of_int (- m))" by simp
  then show ?thesis using \<open>q = of_int m\<close> by (simp only: rne_of_int)
next
  case False
  define f where "f = \<lfloor>q\<rfloor>"
  define d where "d = q - of_int f"
  have "of_int f \<le> q" "q < of_int f + 1" by (simp_all add: f_def)
  moreover have "q \<noteq> of_int f" using False by (simp add: f_def)
  ultimately have d: "0 < d" "d < 1" by (simp_all add: d_def)
  have q: "q = of_int f + d" by (simp add: d_def)
  have m: "\<lfloor>- q\<rfloor> = - f - 1"
    unfolding q using d by (simp add: floor_eq_iff)
  have md: "- q - of_int (- f - 1) = 1 - d" by (simp add: q)
  have r: "rne q = (if d < 1 / 2 then f else if 1 / 2 < d then f + 1 else if even f then f else f + 1)"
    by (simp only: rne_def Let_def f_def [symmetric] d_def [symmetric])
  have r': "rne (- q) = (if 1 - d < 1 / 2 then - f - 1 else if 1 / 2 < 1 - d then - f - 1 + 1
       else if even (- f - 1) then - f - 1 else - f - 1 + 1)"
    by (simp only: rne_def Let_def m md)
  consider "d < 1 / 2" | "1 / 2 < d" | "d = 1 / 2" by linarith
  then show ?thesis
  proof cases
    case 1
    then have "rne q = f" by (simp add: r)
    moreover have "rne (- q) = - f" using 1 by (simp add: r')
    ultimately show ?thesis by simp
  next
    case 2
    then have "rne q = f + 1" by (simp add: r)
    moreover have "rne (- q) = - f - 1" using 2 by (simp add: r')
    ultimately show ?thesis by simp
  next
    case 3
    then have "rne q = (if even f then f else f + 1)" by (simp add: r)
    moreover have "rne (- q) = (if even f then - f else - f - 1)" using 3 by (simp add: r')
    ultimately show ?thesis by simp
  qed
qed

lemma binade_eq:
  assumes "2 powr of_int e \<le> \<bar>x\<bar>" "\<bar>x\<bar> < 2 powr (of_int e + 1)"
  shows "binade x = e"
proof -
  have "0 < \<bar>x\<bar>" using assms(1) by (smt (verit) powr_gt_zero)
  then show ?thesis unfolding binade_def using assms by (simp add: floor_log_eq_powr_iff)
qed

lemma binade_bounds:
  assumes "x \<noteq> 0"
  shows "2 powr of_int (binade x) \<le> \<bar>x\<bar>" "\<bar>x\<bar> < 2 powr (of_int (binade x) + 1)"
proof -
  have "0 < \<bar>x\<bar>" using assms by simp
  then have "2 powr of_int (binade x) \<le> \<bar>x\<bar> \<and> \<bar>x\<bar> < 2 powr (of_int (binade x) + 1)"
    using floor_log_eq_powr_iff [of "\<bar>x\<bar>" 2 "binade x"] by (simp add: binade_def)
  then show "2 powr of_int (binade x) \<le> \<bar>x\<bar>" "\<bar>x\<bar> < 2 powr (of_int (binade x) + 1)" by simp_all
qed

lemma fl_at:
  assumes "2 powr of_int e \<le> \<bar>x\<bar>" "\<bar>x\<bar> < 2 powr (of_int e + 1)"
  shows "fl x = of_int (rne (x / 2 powr of_int (e - 52))) * 2 powr of_int (e - 52)"
proof -
  have "0 < \<bar>x\<bar>" using assms(1) by (smt (verit) powr_gt_zero)
  then have "x \<noteq> 0" by simp
  then show ?thesis using binade_eq [OF assms] by (simp add: fl_def)
qed

lemma fl_0: "fl 0 = 0"
  by (simp add: fl_def)

lemma fl_minus: "fl (- x) = - fl x"
  by (simp add: fl_def binade_def rne_minus)

lemma fl_pos_bounds:
  assumes "0 < x"
  shows "2 powr of_int (binade x) \<le> fl x" "fl x \<le> 2 powr (of_int (binade x) + 1)"
proof -
  let ?e = "binade x"
  let ?u = "(2::real) powr of_int (?e - 52)"
  have x: "x \<noteq> 0" using assms by simp
  have u: "0 < ?u" by simp
  have lo: "2 powr of_int ?e \<le> x" and hi: "x < 2 powr (of_int ?e + 1)"
    using binade_bounds [OF x] assms by simp_all
  have e1: "2 powr of_int ?e = 2 ^ 52 * ?u"
    by (simp add: powr_diff)
  have e2: "2 powr (of_int ?e + 1) = 2 ^ 53 * ?u"
    by (simp add: powr_diff powr_add)
  have "of_int (2 ^ 52) \<le> x / ?u" using lo u e1 by (simp add: pos_le_divide_eq)
  then have a: "2 ^ 52 \<le> rne (x / ?u)" by (rule rne_ge)
  have "x / ?u \<le> of_int (2 ^ 53)" using hi u e2 by (simp add: pos_divide_le_eq)
  then have b: "rne (x / ?u) \<le> 2 ^ 53" by (rule rne_le)
  have f: "fl x = of_int (rne (x / ?u)) * ?u" using x by (simp add: fl_def)
  have "real_of_int (2 ^ 52) \<le> real_of_int (rne (x / ?u))" using a by (simp only: of_int_le_iff)
  then have a': "2 ^ 52 \<le> real_of_int (rne (x / ?u))" by simp
  have "real_of_int (rne (x / ?u)) \<le> real_of_int (2 ^ 53)" using b by (simp only: of_int_le_iff)
  then have b': "real_of_int (rne (x / ?u)) \<le> 2 ^ 53" by simp
  have "2 ^ 52 * ?u \<le> of_int (rne (x / ?u)) * ?u"
    using a' u by (intro mult_right_mono) simp_all
  then show "2 powr of_int ?e \<le> fl x" using e1 f by simp
  have "of_int (rne (x / ?u)) * ?u \<le> 2 ^ 53 * ?u"
    using b' u by (intro mult_right_mono) simp_all
  then show "fl x \<le> 2 powr (of_int ?e + 1)" using e2 f by simp
qed

lemma fl_pos: "0 < x \<Longrightarrow> 0 < fl x"
  using fl_pos_bounds(1) [of x] by (smt (verit) powr_gt_zero)

lemma binade_mono:
  assumes "0 < x" "x \<le> y"
  shows "binade x \<le> binade y"
proof -
  have "log 2 x \<le> log 2 y" using assms by simp
  then show ?thesis using assms by (simp add: binade_def floor_mono)
qed

lemma fl_mono_pos:
  assumes "0 < x" "x \<le> y"
  shows "fl x \<le> fl y"
proof (cases "binade x = binade y")
  case True
  let ?u = "(2::real) powr of_int (binade y - 52)"
  have u: "0 < ?u" by simp
  have "x / ?u \<le> y / ?u" using assms u by (simp add: divide_right_mono)
  then have "rne (x / ?u) \<le> rne (y / ?u)" by (rule rne_mono)
  then have "of_int (rne (x / ?u)) * ?u \<le> of_int (rne (y / ?u)) * ?u"
    using u by (intro mult_right_mono) simp_all
  then show ?thesis using assms True by (simp add: fl_def)
next
  case False
  then have "binade x + 1 \<le> binade y" using binade_mono [OF assms] by simp
  then have "(2::real) powr (of_int (binade x) + 1) \<le> 2 powr of_int (binade y)"
    by (smt (verit) of_int_1 of_int_add of_int_le_iff powr_le_cancel_iff)
  moreover have "0 < y" using assms by simp
  ultimately show ?thesis
    using fl_pos_bounds(2) [OF assms(1)] fl_pos_bounds(1) [OF \<open>0 < y\<close>] by linarith
qed

lemma fl_mono:
  assumes "x \<le> y"
  shows "fl x \<le> fl y"
proof -
  consider "0 < x" | "x = 0" | "x < 0" "0 \<le> y" | "y < 0" by linarith
  then show ?thesis
  proof cases
    case 1
    then show ?thesis using assms by (rule fl_mono_pos)
  next
    case 2
    then show ?thesis using assms fl_pos [of y] by (cases "y = 0") (simp_all add: fl_0 less_imp_le)
  next
    case 3
    then have "0 < fl (- x)" using fl_pos [of "- x"] by simp
    then have "fl x < 0" by (simp add: fl_minus)
    moreover have "0 \<le> fl y" using 3 fl_pos [of y] by (cases "y = 0") (simp_all add: fl_0 less_imp_le)
    ultimately show ?thesis by simp
  next
    case 4
    then have "0 < - y" "- y \<le> - x" using assms by simp_all
    then have "fl (- y) \<le> fl (- x)" by (rule fl_mono_pos)
    then show ?thesis by (simp add: fl_minus)
  qed
qed

lemma fl_power_of_two: "fl (2 powr of_int e) = 2 powr of_int e"
proof -
  have a: "2 powr of_int e \<le> \<bar>2 powr of_int e :: real\<bar>" by simp
  have b: "\<bar>2 powr of_int e :: real\<bar> < 2 powr (of_int e + 1)" by simp
  have q: "(2::real) powr of_int e / 2 powr of_int (e - 52) = of_int (2 ^ 52)"
    by (simp add: powr_diff)
  have "fl (2 powr of_int e) = of_int (rne (of_int (2 ^ 52))) * 2 powr of_int (e - 52)"
    unfolding fl_at [OF a b] q ..
  also have "\<dots> = 2 powr of_int e" by (simp only: rne_of_int) (simp add: powr_diff)
  finally show ?thesis .
qed

text \<open>The exponent computed by halving and doubling, for evaluation.\<close>

lemma binade_code [code]:
  "binade x = (if x = 0 then 0
               else if 2 \<le> \<bar>x\<bar> then binade (x / 2) + 1
               else if \<bar>x\<bar> < 1 then binade (x * 2) - 1
               else 0)"
proof -
  have half: "binade (x / 2) + 1 = binade x" if "x \<noteq> 0"
  proof -
    have "log 2 \<bar>x / 2\<bar> = log 2 \<bar>x\<bar> - 1" using that by (simp add: log_divide)
    then show ?thesis by (simp add: binade_def)
  qed
  have twice: "binade (x * 2) - 1 = binade x" if "x \<noteq> 0"
  proof -
    have "log 2 \<bar>x * 2\<bar> = log 2 \<bar>x\<bar> + 1" using that by (simp add: log_mult abs_mult)
    then show ?thesis by (simp add: binade_def)
  qed
  have unit: "binade x = 0" if "1 \<le> \<bar>x\<bar>" "\<bar>x\<bar> < 2"
    using that by (intro binade_eq) simp_all
  have zero: "binade 0 = 0" by (simp add: binade_def log_def)
  show ?thesis using half twice unit zero by auto
qed

lemma fl_nonneg: "0 \<le> x \<Longrightarrow> 0 \<le> fl x"
  using fl_mono [of 0 x] by (simp add: fl_0)

lemma fl_eq_0_iff: "fl x = 0 \<longleftrightarrow> x = 0"
proof
  assume z: "fl x = 0"
  show "x = 0"
  proof (rule ccontr)
    assume "x \<noteq> 0"
    then consider "0 < x" | "0 < - x" by linarith
    then show False
    proof cases
      case 1
      then show ?thesis using fl_pos [of x] z by simp
    next
      case 2
      then have "0 < fl (- x)" by (rule fl_pos)
      then show ?thesis using z by (simp add: fl_minus)
    qed
  qed
next
  assume "x = 0"
  then show "fl x = 0" by (simp add: fl_0)
qed

text \<open>Rounding moves a number by at most half a unit: a relative error of \<open>2 ^ (- 53)\<close>.\<close>

lemma rne_near: "\<bar>real_of_int (rne q) - q\<bar> \<le> 1 / 2"
proof -
  have "real_of_int \<lfloor>q\<rfloor> \<le> q" "q < real_of_int \<lfloor>q\<rfloor> + 1" by linarith+
  then show ?thesis by (simp add: rne_def Let_def)
qed

lemma fl_rel:
  assumes "0 < x"
  shows "\<bar>fl x - x\<bar> \<le> x / 2 ^ 53"
proof -
  let ?e = "binade x"
  let ?u = "(2::real) powr of_int (?e - 52)"
  have u: "0 < ?u" by simp
  have x0: "x \<noteq> 0" using assms by simp
  have lo: "2 powr of_int ?e \<le> x" using binade_bounds(1) [OF x0] assms by simp
  have e1: "2 powr of_int ?e = 2 ^ 52 * ?u" by (simp add: powr_diff)
  have f: "fl x = of_int (rne (x / ?u)) * ?u" using x0 by (simp add: fl_def)
  have "fl x - x = (of_int (rne (x / ?u)) - x / ?u) * ?u"
    unfolding f using u by (simp add: left_diff_distrib)
  then have "\<bar>fl x - x\<bar> = \<bar>of_int (rne (x / ?u)) - x / ?u\<bar> * ?u"
    using u by (simp only: abs_mult abs_of_pos)
  also have "\<dots> \<le> 1 / 2 * ?u" using rne_near [of "x / ?u"] u by (intro mult_right_mono) simp_all
  also have "\<dots> \<le> x / 2 ^ 53" using lo unfolding e1 by simp
  finally show ?thesis .
qed

lemma fl_lower:
  assumes "0 < x"
  shows "x - x / 9007199254740992 \<le> fl x"
proof -
  have "\<bar>fl x - x\<bar> \<le> x / 9007199254740992" using fl_rel [OF assms] by simp
  then show ?thesis by linarith
qed

lemma fl_upper:
  assumes "0 < x"
  shows "fl x \<le> x + x / 9007199254740992"
proof -
  have "\<bar>fl x - x\<bar> \<le> x / 9007199254740992" using fl_rel [OF assms] by simp
  then show ?thesis by linarith
qed

text \<open>A whole number of at most 53 bits, scaled by a power of two, is a double.\<close>

lemma fl_dyadic:
  assumes "\<bar>k\<bar> \<le> 2 ^ 53"
  shows "fl (of_int k * 2 powr of_int j) = of_int k * 2 powr of_int j"
proof (cases "k = 0")
  case True
  then show ?thesis by (simp add: fl_0)
next
  case False
  define e where "e = binade (of_int k)"
  have k0: "real_of_int k \<noteq> 0" using False by simp
  have lo: "2 powr of_int e \<le> \<bar>real_of_int k\<bar>" and hi: "\<bar>real_of_int k\<bar> < 2 powr (of_int e + 1)"
    using binade_bounds [OF k0] by (simp_all add: e_def)
  have "real_of_int \<bar>k\<bar> \<le> real_of_int (2 ^ 53)" using assms by (simp only: of_int_le_iff)
  then have top: "\<bar>real_of_int k\<bar> \<le> 2 ^ 53" by simp
  have p53: "(2::real) powr of_int 53 = 2 ^ 53" by (simp add: powr_numeral)
  have "(2::real) powr of_int e \<le> 2 powr of_int 53" using lo top by (simp only: p53)
  then have "real_of_int e \<le> real_of_int 53" by (subst (asm) powr_le_cancel_iff) simp_all
  then have e53: "e \<le> 53" by (simp only: of_int_le_iff)
  let ?x = "real_of_int k * 2 powr of_int j"
  show ?thesis
  proof (cases "e = 53")
    case True
    then have "2 ^ 53 \<le> \<bar>real_of_int k\<bar>" using lo p53 by simp
    then have "\<bar>real_of_int k\<bar> = 2 powr of_int 53" using top p53 by simp
    then consider "real_of_int k = 2 powr of_int 53" | "real_of_int k = - (2 powr of_int 53)"
      by (auto simp add: abs_if split: if_splits)
    then show ?thesis
    proof cases
      case 1
      have "?x = 2 powr of_int (53 + j)" unfolding 1 by (simp add: powr_add)
      then show ?thesis using fl_power_of_two [of "53 + j"] by simp
    next
      case 2
      have "?x = - (2 powr of_int (53 + j))" unfolding 2 by (simp add: powr_add)
      then show ?thesis using fl_power_of_two [of "53 + j"] by (simp add: fl_minus)
    qed
  next
    case False
    then have e52: "e \<le> 52" using e53 by simp
    have a: "\<bar>?x\<bar> = \<bar>real_of_int k\<bar> * 2 powr of_int j" by (simp add: abs_mult)
    have "2 powr of_int e * 2 powr of_int j \<le> \<bar>real_of_int k\<bar> * 2 powr of_int j"
      using lo by (intro mult_right_mono) simp_all
    then have lo': "2 powr of_int (e + j) \<le> \<bar>?x\<bar>" unfolding a by (simp add: powr_add)
    have "\<bar>real_of_int k\<bar> * 2 powr of_int j < 2 powr (of_int e + 1) * 2 powr of_int j"
      using hi by (intro mult_strict_right_mono) simp_all
    then have hi': "\<bar>?x\<bar> < 2 powr (of_int (e + j) + 1)" unfolding a by (simp add: powr_add ac_simps)
    have u: "(2::real) powr of_int j = 2 powr of_int (52 - e) * 2 powr of_int (e + j - 52)"
      by (simp add: powr_add [symmetric])
    have "real_of_int (52 - e) = real (nat (52 - e))" using e52 by simp
    then have "(2::real) powr of_int (52 - e) = 2 powr real (nat (52 - e))" by (simp only:)
    also have "\<dots> = 2 ^ nat (52 - e)" by (simp add: powr_realpow)
    finally have w: "(2::real) powr of_int (52 - e) = of_int (2 ^ nat (52 - e))" by simp
    have x: "?x = of_int (k * 2 ^ nat (52 - e)) * 2 powr of_int (e + j - 52)"
    proof -
      have "?x = real_of_int k * (2 powr of_int (52 - e) * 2 powr of_int (e + j - 52))"
        by (subst u) (rule refl)
      also have "\<dots> = real_of_int k * (of_int (2 ^ nat (52 - e)) * 2 powr of_int (e + j - 52))"
        by (simp only: w)
      also have "\<dots> = of_int (k * 2 ^ nat (52 - e)) * 2 powr of_int (e + j - 52)"
        by (simp only: of_int_mult mult.assoc)
      finally show ?thesis .
    qed
    have q: "?x / 2 powr of_int (e + j - 52) = of_int (k * 2 ^ nat (52 - e))"
      by (subst x) simp
    have "fl ?x = of_int (rne (of_int (k * 2 ^ nat (52 - e)))) * 2 powr of_int (e + j - 52)"
      using fl_at [OF lo' hi'] by (simp only: q)
    also have "\<dots> = of_int (k * 2 ^ nat (52 - e)) * 2 powr of_int (e + j - 52)"
      by (simp only: rne_of_int)
    also have "\<dots> = ?x" by (rule x [symmetric])
    finally show ?thesis .
  qed
qed

lemma fl_of_int:
  assumes "\<bar>k\<bar> \<le> 2 ^ 53"
  shows "fl (of_int k) = of_int k"
  using fl_dyadic [OF assms, of 0] by simp

lemma fl_1: "fl 1 = 1" using fl_of_int [of 1] by simp
lemma fl_3: "fl 3 = 3" using fl_of_int [of 3] by simp
lemma fl_60: "fl 60 = 60" using fl_of_int [of 60] by simp

text \<open>
  For evaluation: a whole number of at most 53 bits is returned as it is, and the unit
  \<open>2 ^ (e - 52)\<close> is formed by shifting.
\<close>

lemma fl_code [code]:
  "fl x = (if x = of_int \<lfloor>x\<rfloor> \<and> \<bar>x\<bar> \<le> 9007199254740992 then x
           else let e = binade x - 52;
                    u = (if 0 \<le> e then of_int (push_bit (nat e) 1) else 1 / of_int (push_bit (nat (- e)) 1))
                in of_int (rne (x / u)) * u)"
proof -
  have u: "(if 0 \<le> e then real_of_int (push_bit (nat e) 1) else 1 / of_int (push_bit (nat (- e)) 1))
           = 2 powr of_int e" for e :: int
    by (simp add: powr_real_of_int push_bit_eq_mult inverse_eq_divide)
  show ?thesis
  proof (cases "x = of_int \<lfloor>x\<rfloor> \<and> \<bar>x\<bar> \<le> 9007199254740992")
    case True
    then have x: "x = of_int \<lfloor>x\<rfloor>" and b: "\<bar>real_of_int \<lfloor>x\<rfloor>\<bar> \<le> 9007199254740992" by simp_all
    have "real_of_int \<bar>\<lfloor>x\<rfloor>\<bar> \<le> real_of_int (2 ^ 53)" using b by simp
    then have "\<bar>\<lfloor>x\<rfloor>\<bar> \<le> 2 ^ 53" by (simp only: of_int_le_iff)
    then have "fl (of_int \<lfloor>x\<rfloor>) = of_int \<lfloor>x\<rfloor>" by (rule fl_of_int)
    then have "fl x = x" using x by simp
    then show ?thesis using True by simp
  next
    case False
    then have "x \<noteq> 0" by auto
    then have "fl x = of_int (rne (x / 2 powr of_int (binade x - 52))) * 2 powr of_int (binade x - 52)"
      by (simp add: fl_def)
    then show ?thesis using False by (simp only: if_False Let_def u)
  qed
qed

subsection \<open>Truncation\<close>

lemma trunc_nonneg: "0 \<le> x \<Longrightarrow> trunc x = \<lfloor>x\<rfloor>"
  by (simp add: trunc_def)

lemma trunc_of_int: "trunc (of_int k) = k"
  by (simp add: trunc_def)

subsection \<open>The sampler in double arithmetic\<close>

lemma rne_below_half: "of_int f \<le> q \<Longrightarrow> q < of_int f + 1 / 2 \<Longrightarrow> rne q = f"
proof -
  assume a: "of_int f \<le> q" "q < of_int f + 1 / 2"
  then have "\<lfloor>q\<rfloor> = f" by (simp add: floor_eq_iff)
  then show ?thesis using a by (simp add: rne_def Let_def)
qed

lemma rne_above_half: "of_int f + 1 / 2 < q \<Longrightarrow> q < of_int f + 1 \<Longrightarrow> rne q = f + 1"
proof -
  assume a: "of_int f + 1 / 2 < q" "q < of_int f + 1"
  then have "\<lfloor>q\<rfloor> = f" by (simp add: floor_eq_iff)
  then show ?thesis using a by (simp add: rne_def Let_def)
qed

lemma rne_half: "rne (of_int f + 1 / 2) = (if even f then f else f + 1)"
proof -
  have "\<lfloor>real_of_int f + 1 / 2\<rfloor> = f" by (simp add: floor_eq_iff)
  then show ?thesis by (simp add: rne_def Let_def)
qed

text \<open>Rounding a number given as \<open>q\<close> units of \<open>2 ^ k\<close>, with \<open>q\<close> of 53 bits.\<close>

lemma fl_scaled:
  assumes "2 ^ 52 \<le> \<bar>q\<bar>" "\<bar>q\<bar> < 2 ^ 53"
  shows "fl (q * 2 powr of_int k) = of_int (rne q) * 2 powr of_int k"
proof -
  let ?x = "q * 2 powr of_int k"
  have a: "\<bar>?x\<bar> = \<bar>q\<bar> * 2 powr of_int k" by (simp add: abs_mult)
  have p52: "(2::real) powr of_int (k + 52) = 2 ^ 52 * 2 powr of_int k"
    by (simp add: powr_add)
  have p53: "(2::real) powr (of_int (k + 52) + 1) = 2 ^ 53 * 2 powr of_int k"
    by (simp add: powr_add)
  have lo: "2 powr of_int (k + 52) \<le> \<bar>?x\<bar>"
    unfolding a p52 using assms(1) by (intro mult_right_mono) simp_all
  have hi: "\<bar>?x\<bar> < 2 powr (of_int (k + 52) + 1)"
    unfolding a p53 using assms(2) by (intro mult_strict_right_mono) simp_all
  have "?x / 2 powr of_int (k + 52 - 52) = q" by simp
  then show ?thesis using fl_at [OF lo hi] by simp
qed

lemma fl_two_power: "fl (2 ^ n) = 2 ^ n"
proof -
  have "(2::real) powr of_int (int n) = 2 ^ n" by (simp add: powr_realpow)
  then show ?thesis using fl_power_of_two [of "int n"] by simp
qed

lemma fl_4: "fl 4 = 4" using fl_two_power [of 2] by simp
lemma fl_8: "fl 8 = 8" using fl_two_power [of 3] by simp
lemma fl_16: "fl 16 = 16" using fl_two_power [of 4] by simp
lemma fl_256: "fl 256 = 256" using fl_two_power [of 8] by simp
lemma fl_2: "fl 2 = 2" using fl_two_power [of 1] by simp
lemma fl_neg_2: "fl (- 2) = - 2" using fl_minus [of 2] fl_2 by simp

text \<open>The largest double below 1, and what the sampler's operations make of it.\<close>

lemma fl_below_one: "fl (1 - 1 / 2 ^ 53) = 1 - 1 / 2 ^ 53"
proof -
  have x: "(1 - 1 / 2 ^ 53 :: real) = of_int (2 ^ 53 - 1) * 2 powr of_int (- 53)"
    by (simp add: powr_minus divide_simps)
  have "fl (of_int (2 ^ 53 - 1) * 2 powr of_int (- 53)) = of_int (rne (of_int (2 ^ 53 - 1))) * 2 powr of_int (- 53)"
    by (rule fl_scaled) simp_all
  then show ?thesis unfolding x rne_of_int .
qed

lemma unit_double_le:
  assumes "unit_double x"
  shows "x \<le> 1 - 1 / 2 ^ 53"
proof (rule ccontr)
  assume "\<not> x \<le> 1 - 1 / 2 ^ 53"
  then have big: "1 - 1 / 2 ^ 53 < x" by simp
  have x: "x < 1" "fl x = x" using assms by (simp_all add: unit_double_def)
  have lo: "2 powr of_int (- 1) \<le> \<bar>x\<bar>" using big by (simp add: powr_minus)
  have hi: "\<bar>x\<bar> < 2 powr (of_int (- 1) + 1)" using big x by simp
  let ?m = "rne (x / 2 powr of_int (- 1 - 52))"
  have "x = of_int ?m * 2 powr of_int (- 1 - 52)" using fl_at [OF lo hi] x(2) by simp
  then have e: "x = of_int ?m / 2 ^ 53" by (simp add: powr_minus divide_simps)
  have "of_int ?m / 2 ^ 53 < (1::real)" using x(1) e by simp
  then have "real_of_int ?m < 2 ^ 53" by (simp add: divide_simps)
  then have "real_of_int ?m < real_of_int (2 ^ 53)" by simp
  then have a: "?m < 2 ^ 53" by (simp only: of_int_less_iff)
  have "1 - 1 / 2 ^ 53 < real_of_int ?m / 2 ^ 53" using big e by simp
  then have "2 ^ 53 - 1 < real_of_int ?m" by (simp add: divide_simps)
  then have "real_of_int (2 ^ 53 - 1) < real_of_int ?m" by simp
  then have b: "2 ^ 53 - 1 < ?m" by (simp only: of_int_less_iff)
  show False using a b by simp
qed

lemma fl_90_top: "fl (90 * (1 - 1 / 2 ^ 53)) = 90 - 1 / 2 ^ 46"
proof -
  let ?q = "6333186975989760 - 90 / 128 :: real"
  have x: "(90 * (1 - 1 / 2 ^ 53) :: real) = ?q * 2 powr of_int (- 46)"
    by (simp add: powr_minus divide_simps)
  have r: "rne ?q = 6333186975989759"
    by (rule rne_below_half) simp_all
  have "fl (?q * 2 powr of_int (- 46)) = of_int (rne ?q) * 2 powr of_int (- 46)"
    by (rule fl_scaled) simp_all
  then show ?thesis unfolding x r by (simp add: powr_minus divide_simps)
qed

lemma fl_3_2_top: "fl (3 / 2 * (1 - 1 / 2 ^ 53)) = 3 / 2 - 1 / 2 ^ 52"
proof -
  let ?q = "6755399441055744 - 3 / 4 :: real"
  have x: "(3 / 2 * (1 - 1 / 2 ^ 53) :: real) = ?q * 2 powr of_int (- 52)"
    by (simp add: powr_minus divide_simps)
  have r: "rne ?q = 6755399441055743"
    by (rule rne_below_half) simp_all
  have "fl (?q * 2 powr of_int (- 52)) = of_int (rne ?q) * 2 powr of_int (- 52)"
    by (rule fl_scaled) simp_all
  then show ?thesis unfolding x r by (simp add: powr_minus divide_simps)
qed

lemma fl_exponent_top: "fl (- 2 + (3 / 2 - 1 / 2 ^ 52)) = - 1 / 2 - 1 / 2 ^ 52"
proof -
  have x: "(- 2 + (3 / 2 - 1 / 2 ^ 52) :: real) = of_int (- (2 ^ 52 + 2)) * 2 powr of_int (- 53)"
    by (simp add: powr_minus divide_simps)
  have "fl (of_int (- (2 ^ 52 + 2)) * 2 powr of_int (- 53))
        = of_int (rne (of_int (- (2 ^ 52 + 2)))) * 2 powr of_int (- 53)"
    by (rule fl_scaled) simp_all
  then show ?thesis unfolding x rne_of_int by (simp add: powr_minus divide_simps)
qed

lemma fl_hundredth: "1 / 100 \<le> fl (1 / 100)"
proof -
  let ?q = "576460752303423488 / 100 :: real"
  have x: "(1 / 100 :: real) = ?q * 2 powr of_int (- 59)"
    by (simp add: powr_minus divide_simps)
  have r: "rne ?q = 5764607523034234 + 1"
    by (rule rne_above_half) simp_all
  have "fl (?q * 2 powr of_int (- 59)) = of_int (rne ?q) * 2 powr of_int (- 59)"
    by (rule fl_scaled) simp_all
  then have "fl (1 / 100) = 5764607523034235 / 2 ^ 59"
    unfolding x [symmetric] r by (simp add: powr_minus divide_simps)
  then show ?thesis by simp
qed

lemma fl_4_top: "fl (4 * (1 - 1 / 2 ^ 53)) = 4 - 1 / 2 ^ 51"
proof -
  have x: "(4 * (1 - 1 / 2 ^ 53) :: real) = of_int (2 ^ 53 - 1) * 2 powr of_int (- 51)"
    by (simp add: powr_minus divide_simps)
  have "fl (of_int (2 ^ 53 - 1) * 2 powr of_int (- 51)) = of_int (rne (of_int (2 ^ 53 - 1))) * 2 powr of_int (- 51)"
    by (rule fl_scaled) simp_all
  then show ?thesis unfolding x rne_of_int by (simp add: powr_minus divide_simps)
qed

text \<open>The tie: \<open>8 - 2 ^ (- 51)\<close> lies halfway between two doubles, and 8 is the even one.\<close>

lemma fl_8_tie: "fl (4 + (4 - 1 / 2 ^ 51)) = 8"
proof -
  let ?q = "of_int (2 ^ 53 - 1) + 1 / 2 :: real"
  have x: "(4 + (4 - 1 / 2 ^ 51) :: real) = ?q * 2 powr of_int (- 50)"
    by (simp add: powr_minus divide_simps)
  have r: "rne ?q = 2 ^ 53"
    by (simp only: rne_half) simp
  have "fl (?q * 2 powr of_int (- 50)) = of_int (rne ?q) * 2 powr of_int (- 50)"
    by (rule fl_scaled) simp_all
  then show ?thesis unfolding x r by (simp add: powr_minus divide_simps)
qed

lemma trunc_mono: "x \<le> y \<Longrightarrow> trunc x \<le> trunc y"
proof -
  assume a: "x \<le> y"
  consider "0 \<le> x" | "x < 0" "0 \<le> y" | "y < 0" by linarith
  then show ?thesis
  proof cases
    case 1
    then show ?thesis using a by (simp add: trunc_def floor_mono)
  next
    case 2
    then have "\<lceil>x\<rceil> \<le> 0" "0 \<le> \<lfloor>y\<rfloor>" by (simp_all add: ceiling_le_iff)
    then have "\<lceil>x\<rceil> \<le> \<lfloor>y\<rfloor>" by linarith
    then show ?thesis using 2 by (simp add: trunc_def)
  next
    case 3
    then show ?thesis using a by (simp add: trunc_def ceiling_mono)
  qed
qed

lemma ln_10_ge_2: "2 \<le> ln (10::real)"
proof -
  have "exp (2::real) = exp 1 * exp 1" by (simp add: exp_add [symmetric])
  also have "\<dots> \<le> 3 * 3" by (intro mult_mono exp_le) simp_all
  finally have "exp (2::real) \<le> 10" by simp
  then show ?thesis by (simp add: ln_ge_iff)
qed

lemma fl_LR_top: "fl LR_top = LR_top"
proof -
  have x: "LR_top = of_int 5696652996790542 * 2 powr of_int (- 54)"
    by (simp add: LR_top_def powr_minus divide_simps)
  have "fl (of_int 5696652996790542 * 2 powr of_int (- 54))
        = of_int (rne (of_int 5696652996790542)) * 2 powr of_int (- 54)"
    by (rule fl_scaled) simp_all
  then show ?thesis unfolding x rne_of_int .
qed

lemma LR_top_less: "LR_top < 10 powr (- 1 / 2)"
proof -
  have "sqrt 10 < 1 / LR_top"
    by (rule real_less_lsqrt) (simp_all add: LR_top_def power2_eq_square)
  moreover have "0 < LR_top" by (simp add: LR_top_def)
  ultimately have "LR_top < 1 / sqrt 10" by (simp add: field_simps)
  moreover have "(10::real) powr (- 1 / 2) = 1 / sqrt 10"
    by (simp add: powr_minus powr_half_sqrt divide_simps)
  ultimately show ?thesis by simp
qed

lemma square_of_power_of_ten:
  fixes t :: real
  shows "(10 powr (- 1 / 2 - t))\<^sup>2 = (1 / 10) * exp (- (2 * t * ln 10))"
proof -
  have "(10 powr (- 1 / 2 - t))\<^sup>2 = 10 powr (- 1 / 2 - t) * 10 powr (- 1 / 2 - t)"
    by (simp add: power2_eq_square)
  also have "\<dots> = 10 powr ((- 1 / 2 - t) + (- 1 / 2 - t))" by (simp only: powr_add)
  also have "(- 1 / 2 - t) + (- 1 / 2 - t) = (- 1) + (- (2 * t))" by simp
  also have "10 powr ((- 1) + (- (2 * t))) = 10 powr (- 1) * 10 powr (- (2 * t))"
    by (rule powr_add)
  also have "10 powr (- 1) = (1 / 10 :: real)" by (simp add: powr_minus)
  also have "10 powr (- (2 * t)) = exp (- (2 * t * ln 10))" by (simp add: powr_def)
  finally show ?thesis .
qed

lemma LR_top_ge: "10 powr (- 1 / 2 - 1 / 2 ^ 52) \<le> LR_top"
proof -
  define t :: real where "t = 1 / 2 ^ 52"
  let ?A = "(10::real) powr (- 1 / 2 - t)"
  let ?u = "2 * t * ln 10"
  have t: "0 \<le> t" by (simp add: t_def)
  have "2 * t * 2 \<le> 2 * t * ln 10" using ln_10_ge_2 t by (intro mult_left_mono) simp_all
  then have u: "4 * t \<le> ?u" by simp
  have sq: "?A\<^sup>2 = (1 / 10) * exp (- ?u)" by (rule square_of_power_of_ten)
  have "1 + ?u \<le> exp ?u" by (rule exp_ge_add_one_self)
  then have "1 + 4 * t \<le> exp ?u" using u by linarith
  moreover have "0 < 1 + 4 * t" using t by simp
  ultimately have "1 / exp ?u \<le> 1 / (1 + 4 * t)" by (intro divide_left_mono) simp_all
  then have "exp (- ?u) \<le> 1 / (1 + 4 * t)" by (simp add: exp_minus inverse_eq_divide)
  then have "(1 / 10) * exp (- ?u) \<le> (1 / 10) * (1 / (1 + 4 * t))"
    by (intro mult_left_mono) simp_all
  then have "?A\<^sup>2 \<le> (1 / 10) * (1 / (1 + 4 * t))" by (simp only: sq)
  also have "\<dots> \<le> LR_top\<^sup>2" by (simp add: t_def LR_top_def power2_eq_square divide_simps)
  finally have "?A\<^sup>2 \<le> LR_top\<^sup>2" .
  moreover have "0 \<le> LR_top" by (simp add: LR_top_def)
  ultimately have "?A \<le> LR_top" by (rule power2_le_imp_le)
  then show ?thesis by (simp only: t_def)
qed

lemma sampler_fields:
  "nfilters (get_random_hyperparameter_configuration (x0, x1, x2, x3)) = 10 + trunc (fl (90 * x0))"
  "batch_size_train (get_random_hyperparameter_configuration (x0, x1, x2, x3))
     = trunc (fl (2 powr fl (4 + fl (4 * x1))))"
  "M (get_random_hyperparameter_configuration (x0, x1, x2, x3)) = x2"
  "LR (get_random_hyperparameter_configuration (x0, x1, x2, x3)) = fl (10 powr fl (- 2 + fl (1.5 * x3)))"
  by (simp_all add: get_random_hyperparameter_configuration_def)

lemma nfilters_range:
  assumes "unit_double x"
  shows "0 \<le> trunc (fl (90 * x))" "trunc (fl (90 * x)) \<le> 89"
proof -
  have x: "0 \<le> x" "x \<le> 1 - 1 / 2 ^ 53"
    using assms unit_double_le by (simp_all add: unit_double_def)
  have nn: "0 \<le> fl (90 * x)" using x(1) by (intro fl_nonneg) simp
  then show "0 \<le> trunc (fl (90 * x))" by (simp add: trunc_nonneg)
  have "90 * x \<le> 90 * (1 - 1 / 2 ^ 53)" using x(2) by simp
  then have "fl (90 * x) \<le> 90 - 1 / 2 ^ 46" using fl_mono fl_90_top by metis
  then have "fl (90 * x) < 90" by simp
  then have "\<lfloor>fl (90 * x)\<rfloor> < 90" by (simp add: floor_less_iff)
  then show "trunc (fl (90 * x)) \<le> 89" using nn by (simp add: trunc_nonneg)
qed

lemma exponent_range:
  assumes "0 \<le> x" "x < 1"
  shows "4 \<le> fl (4 + fl (4 * x))" "fl (4 + fl (4 * x)) \<le> 8"
proof -
  have a: "0 \<le> fl (4 * x)" using assms by (intro fl_nonneg) simp
  have "fl (4 * x) \<le> fl 4" using assms by (intro fl_mono) simp
  then have b: "fl (4 * x) \<le> 4" by (simp only: fl_4)
  have "fl 4 \<le> fl (4 + fl (4 * x))" using a by (intro fl_mono) simp
  then show "4 \<le> fl (4 + fl (4 * x))" by (simp only: fl_4)
  have "fl (4 + fl (4 * x)) \<le> fl 8" using b by (intro fl_mono) simp
  then show "fl (4 + fl (4 * x)) \<le> 8" by (simp only: fl_8)
qed

text \<open>A power of 2 between two whole powers of 2 rounds and truncates between them.\<close>

lemma power_between:
  assumes "of_int e \<le> y" "y \<le> of_int e + 1" "0 \<le> e"
  shows "2 ^ nat e \<le> trunc (fl (2 powr y))" "trunc (fl (2 powr y)) \<le> 2 ^ (nat e + 1)"
proof -
  have lo: "(2::real) ^ nat e \<le> 2 powr y"
  proof -
    have "(2::real) powr of_int e \<le> 2 powr y" using assms(1) by simp
    moreover have "(2::real) powr of_int e = 2 ^ nat e" using assms(3) by (simp add: powr_int)
    ultimately show ?thesis by simp
  qed
  have hi: "2 powr y \<le> (2::real) ^ (nat e + 1)"
  proof -
    have "(2::real) powr y \<le> 2 powr (of_int e + 1)" using assms(2) by simp
    moreover have "(2::real) powr (of_int e + 1) = 2 ^ (nat e + 1)"
      using assms(3) by (simp add: powr_add powr_int)
    ultimately show ?thesis by simp
  qed
  have "fl (2 ^ nat e) \<le> fl (2 powr y)" using lo by (rule fl_mono)
  then have a: "2 ^ nat e \<le> fl (2 powr y)" by (simp only: fl_two_power)
  have "fl (2 powr y) \<le> fl (2 ^ (nat e + 1))" using hi by (rule fl_mono)
  then have b: "fl (2 powr y) \<le> 2 ^ (nat e + 1)" by (simp only: fl_two_power)
  have nn: "0 \<le> fl (2 powr y)" using a by (smt (verit) zero_le_power)
  have "real_of_int (2 ^ nat e) \<le> fl (2 powr y)" using a by simp
  then have "2 ^ nat e \<le> \<lfloor>fl (2 powr y)\<rfloor>" by (simp only: le_floor_iff)
  then show "2 ^ nat e \<le> trunc (fl (2 powr y))" using nn by (simp add: trunc_nonneg)
  have "\<lfloor>fl (2 powr y)\<rfloor> \<le> \<lfloor>real_of_int (2 ^ (nat e + 1))\<rfloor>" using b by (intro floor_mono) simp
  then have "\<lfloor>fl (2 powr y)\<rfloor> \<le> 2 ^ (nat e + 1)" by (simp only: floor_of_int)
  then show "trunc (fl (2 powr y)) \<le> 2 ^ (nat e + 1)" using nn by (simp add: trunc_nonneg)
qed

lemma LR_range:
  assumes "unit_double x"
  shows "10 powr (- 2) \<le> fl (10 powr fl (- 2 + fl (1.5 * x)))"
    "fl (10 powr fl (- 2 + fl (1.5 * x))) < 10 powr (- 1 / 2)"
proof -
  let ?z = "fl (- 2 + fl (1.5 * x))"
  have x: "0 \<le> x" "x \<le> 1 - 1 / 2 ^ 53"
    using assms unit_double_le by (simp_all add: unit_double_def)
  have a: "0 \<le> fl (1.5 * x)" using x(1) by (intro fl_nonneg) simp
  have "fl (- 2) \<le> ?z" using a by (intro fl_mono) simp
  then have z_lo: "- 2 \<le> ?z" by (simp only: fl_neg_2)
  have "(10::real) powr (- 2) \<le> 10 powr ?z" using z_lo by (intro powr_mono) simp_all
  then have "fl (10 powr (- 2)) \<le> fl (10 powr ?z)" by (rule fl_mono)
  moreover have "(10::real) powr (- 2) = 1 / 100" by (simp add: powr_minus)
  ultimately have "fl (1 / 100) \<le> fl (10 powr ?z)" by simp
  then have "1 / 100 \<le> fl (10 powr ?z)" using fl_hundredth by linarith
  then show "10 powr (- 2) \<le> fl (10 powr ?z)" by (simp add: powr_minus)
  have "1.5 * x \<le> 3 / 2 * (1 - 1 / 2 ^ 53)" using x(2) by simp
  then have "fl (1.5 * x) \<le> fl (3 / 2 * (1 - 1 / 2 ^ 53))" by (rule fl_mono)
  then have "fl (1.5 * x) \<le> 3 / 2 - 1 / 2 ^ 52" by (simp only: fl_3_2_top)
  then have "- 2 + fl (1.5 * x) \<le> - 2 + (3 / 2 - 1 / 2 ^ 52)" by simp
  then have "?z \<le> fl (- 2 + (3 / 2 - 1 / 2 ^ 52))" by (rule fl_mono)
  then have z_hi: "?z \<le> - 1 / 2 - 1 / 2 ^ 52" by (simp only: fl_exponent_top)
  have "(10::real) powr ?z \<le> 10 powr (- 1 / 2 - 1 / 2 ^ 52)" using z_hi by (intro powr_mono) simp_all
  then have "10 powr ?z \<le> LR_top" using LR_top_ge by linarith
  then have "fl (10 powr ?z) \<le> fl LR_top" by (rule fl_mono)
  then have "fl (10 powr ?z) \<le> LR_top" by (simp only: fl_LR_top)
  then show "fl (10 powr ?z) < 10 powr (- 1 / 2)" using LR_top_less by linarith
qed

lemma batch_range:
  assumes "0 \<le> x" "x < 1"
  shows "16 \<le> trunc (fl (2 powr fl (4 + fl (4 * x))))" "trunc (fl (2 powr fl (4 + fl (4 * x)))) \<le> 256"
proof -
  let ?y = "fl (4 + fl (4 * x))"
  have y: "4 \<le> ?y" "?y \<le> 8" using exponent_range [OF assms] by simp_all
  have p4: "(2::real) powr 4 = 16" and p8: "(2::real) powr 8 = 256" by simp_all
  have "(2::real) powr 4 \<le> 2 powr ?y" using y(1) by (intro powr_mono) simp_all
  then have lo: "16 \<le> 2 powr ?y" by (simp only: p4)
  have "2 powr ?y \<le> (2::real) powr 8" using y(2) by (intro powr_mono) simp_all
  then have hi: "2 powr ?y \<le> 256" by (simp only: p8)
  have "fl 16 \<le> fl (2 powr ?y)" using lo by (rule fl_mono)
  then have a: "16 \<le> fl (2 powr ?y)" by (simp only: fl_16)
  have "fl (2 powr ?y) \<le> fl 256" using hi by (rule fl_mono)
  then have b: "fl (2 powr ?y) \<le> 256" by (simp only: fl_256)
  have "trunc 16 \<le> trunc (fl (2 powr ?y))" using a by (rule trunc_mono)
  then show "16 \<le> trunc (fl (2 powr ?y))" by (simp add: trunc_def)
  have "trunc (fl (2 powr ?y)) \<le> trunc 256" using b by (rule trunc_mono)
  then show "trunc (fl (2 powr ?y)) \<le> 256" by (simp add: trunc_def)
qed

lemma nfilters_mono: "x \<le> y \<Longrightarrow> trunc (fl (90 * x)) \<le> trunc (fl (90 * y))"
  by (intro trunc_mono fl_mono) simp

lemma batch_mono:
  "x \<le> y \<Longrightarrow> trunc (fl (2 powr fl (4 + fl (4 * x)))) \<le> trunc (fl (2 powr fl (4 + fl (4 * y))))"
proof -
  assume "x \<le> y"
  then have "fl (4 * x) \<le> fl (4 * y)" by (intro fl_mono) simp
  then have "fl (4 + fl (4 * x)) \<le> fl (4 + fl (4 * y))" by (intro fl_mono) simp
  then have "(2::real) powr fl (4 + fl (4 * x)) \<le> 2 powr fl (4 + fl (4 * y))" by simp
  then show ?thesis by (intro trunc_mono fl_mono)
qed

lemma LR_mono:
  "x \<le> y \<Longrightarrow> fl (10 powr fl (- 2 + fl (1.5 * x))) \<le> fl (10 powr fl (- 2 + fl (1.5 * y)))"
proof -
  assume "x \<le> y"
  then have "fl (1.5 * x) \<le> fl (1.5 * y)" by (intro fl_mono) simp
  then have "fl (- 2 + fl (1.5 * x)) \<le> fl (- 2 + fl (1.5 * y))" by (intro fl_mono) simp
  then have "(10::real) powr fl (- 2 + fl (1.5 * x)) \<le> 10 powr fl (- 2 + fl (1.5 * y))" by simp
  then show ?thesis by (rule fl_mono)
qed

text \<open>Multiplying a double by 4 is exact.\<close>

lemma fl_times_4:
  assumes "fl x = x"
  shows "fl (4 * x) = 4 * x"
proof (cases "x = 0")
  case True
  then show ?thesis by (simp add: fl_0)
next
  case False
  have "log 2 \<bar>4 * x\<bar> = log 2 4 + log 2 \<bar>x\<bar>" using False by (simp add: abs_mult log_mult)
  moreover have "log 2 (4::real) = 2"
    using log_pow_cancel [of 2 2] by simp
  ultimately have "log 2 \<bar>4 * x\<bar> = log 2 \<bar>x\<bar> + 2" by simp
  then have b: "binade (4 * x) = binade x + 2" by (simp add: binade_def)
  have p: "(2::real) powr of_int (binade x + 2 - 52) = 4 * 2 powr of_int (binade x - 52)"
    by (simp add: powr_add powr_diff)
  let ?u = "(2::real) powr of_int (binade x - 52)"
  have nz: "4 * x \<noteq> 0" using False by simp
  have q: "4 * x / (4 * ?u) = x / ?u" by simp
  have "fl (4 * x) = of_int (rne (4 * x / 2 powr of_int (binade (4 * x) - 52)))
                       * 2 powr of_int (binade (4 * x) - 52)"
    using nz by (simp only: fl_def if_False)
  also have "\<dots> = of_int (rne (x / ?u)) * (4 * ?u)" by (simp only: b p q)
  also have "\<dots> = 4 * (of_int (rne (x / ?u)) * ?u)" by simp
  also have "of_int (rne (x / ?u)) * ?u = fl x" using False by (simp only: fl_def if_False)
  finally show ?thesis using assms by simp
qed

lemma power_of_two_iff: "power_of_two n \<longleftrightarrow> (\<exists>k::nat. n = 2 ^ k)"
proof
  assume "power_of_two n"
  then show "\<exists>k::nat. n = 2 ^ k" by (auto simp add: power_of_two_def)
next
  assume "\<exists>k::nat. n = 2 ^ k"
  then obtain k :: nat where n: "n = 2 ^ k" ..
  have "k < 2 ^ k" by (rule less_exp)
  then have "int k < int (2 ^ k)" by (simp only: of_nat_less_iff)
  then have "int k \<le> 2 ^ k" by simp
  then have "k \<le> nat n" using n by (simp add: le_nat_iff)
  then show "power_of_two n" using n by (auto simp add: power_of_two_def)
qed

lemma not_power_of_two_22: "\<not> power_of_two 22"
proof
  assume "power_of_two 22"
  then obtain k :: nat where k: "(22::int) = 2 ^ k" using power_of_two_iff by blast
  show False
  proof (cases "k \<le> 4")
    case True
    then have "(2::int) ^ k \<le> 2 ^ 4" by (intro power_increasing) simp_all
    then show False using k by simp
  next
    case False
    then have "(2::int) ^ 5 \<le> 2 ^ k" by (intro power_increasing) simp_all
    then show False using k by simp
  qed
qed

lemma unit_double_eighth: "unit_double (1 / 8)"
proof -
  have "fl (2 powr of_int (- 3)) = 2 powr of_int (- 3)" by (rule fl_power_of_two)
  then show ?thesis by (simp add: unit_double_def powr_minus)
qed

lemma unit_double_half: "unit_double (1 / 2)"
proof -
  have "fl (2 powr of_int (- 1)) = 2 powr of_int (- 1)" by (rule fl_power_of_two)
  then show ?thesis by (simp add: unit_double_def powr_minus)
qed

lemma unit_double_quarter: "unit_double (1 / 4)"
proof -
  have "fl (2 powr of_int (- 2)) = 2 powr of_int (- 2)" by (rule fl_power_of_two)
  then show ?thesis by (simp add: unit_double_def powr_minus)
qed

lemma unit_double_top: "unit_double (1 - 1 / 2 ^ 53)"
  unfolding unit_double_def by (intro conjI fl_below_one) simp_all

lemma fl_9_2: "fl (9 / 2) = 9 / 2"
proof -
  have x: "(9 / 2 :: real) = of_int (9 * 2 ^ 49) * 2 powr of_int (- 50)"
    by (simp add: powr_minus divide_simps)
  have "fl (of_int (9 * 2 ^ 49) * 2 powr of_int (- 50)) = of_int (rne (of_int (9 * 2 ^ 49))) * 2 powr of_int (- 50)"
    by (rule fl_scaled) simp_all
  then show ?thesis unfolding x rne_of_int .
qed

lemma fl_22: "fl 22 = 22"
proof -
  have x: "(22 :: real) = of_int (22 * 2 ^ 48) * 2 powr of_int (- 48)"
    by (simp add: powr_minus divide_simps)
  have "fl (of_int (22 * 2 ^ 48) * 2 powr of_int (- 48)) = of_int (rne (of_int (22 * 2 ^ 48))) * 2 powr of_int (- 48)"
    by (rule fl_scaled) simp_all
  then show ?thesis unfolding x rne_of_int .
qed

lemma fl_91_4: "fl (91 / 4) = 91 / 4"
proof -
  have x: "(91 / 4 :: real) = of_int (91 * 2 ^ 46) * 2 powr of_int (- 48)"
    by (simp add: powr_minus divide_simps)
  have "fl (of_int (91 * 2 ^ 46) * 2 powr of_int (- 48)) = of_int (rne (of_int (91 * 2 ^ 46))) * 2 powr of_int (- 48)"
    by (rule fl_scaled) simp_all
  then show ?thesis unfolding x rne_of_int .
qed

lemma power_9_2: "(22::real) \<le> 2 powr (9 / 2)" "2 powr (9 / 2) \<le> (91 / 4 :: real)"
proof -
  have "sqrt 512 = (512::real) powr (1 / 2)" by (simp add: powr_half_sqrt)
  also have "(512::real) = 2 powr 9" by simp
  also have "((2::real) powr 9) powr (1 / 2) = 2 powr (9 * (1 / 2))" by (rule powr_powr)
  also have "(9 * (1 / 2) :: real) = 9 / 2" by simp
  finally have e: "(2::real) powr (9 / 2) = sqrt 512" by simp
  have "22 \<le> sqrt 512" by (rule real_le_rsqrt) (simp add: power2_eq_square)
  then show "(22::real) \<le> 2 powr (9 / 2)" by (simp only: e)
  have "sqrt 512 \<le> 91 / 4" by (rule real_le_lsqrt) (simp_all add: power2_eq_square)
  then show "2 powr (9 / 2) \<le> (91 / 4 :: real)" by (simp only: e)
qed

lemma batch_size_eighth: "trunc (fl (2 powr fl (4 + fl (4 * (1 / 8))))) = 22"
proof -
  have "fl (2 powr of_int (- 1)) = 2 powr of_int (- 1)" by (rule fl_power_of_two)
  then have h: "fl (1 / 2) = 1 / 2" by (simp add: powr_minus)
  have "(4 * (1 / 8) :: real) = 1 / 2" and "(4 + 1 / 2 :: real) = 9 / 2" by simp_all
  then have y: "fl (4 + fl (4 * (1 / 8))) = 9 / 2" by (simp only: h fl_9_2)
  have "fl 22 \<le> fl (2 powr (9 / 2))" using power_9_2(1) by (rule fl_mono)
  then have a: "22 \<le> fl (2 powr (9 / 2))" by (simp only: fl_22)
  have "fl (2 powr (9 / 2)) \<le> fl (91 / 4)" using power_9_2(2) by (rule fl_mono)
  then have b: "fl (2 powr (9 / 2)) \<le> 91 / 4" by (simp only: fl_91_4)
  have "\<lfloor>fl (2 powr (9 / 2))\<rfloor> = 22" using a b by (simp add: floor_eq_iff)
  then show ?thesis using a unfolding y by (simp add: trunc_def)
qed

lemma batch_size_top: "trunc (fl (2 powr fl (4 + fl (4 * (1 - 1 / 2 ^ 53))))) = 256"
proof -
  have "fl (4 + fl (4 * (1 - 1 / 2 ^ 53))) = 8" by (simp only: fl_4_top fl_8_tie)
  then show ?thesis by (simp add: fl_256 trunc_def)
qed

lemma power_of_two_power: "power_of_two (2 ^ k)"
  using power_of_two_iff by blast

subsection \<open>Facts about Python 2 numbers\<close>

lemma to_float_PyInt: "\<bar>a\<bar> \<le> 2 ^ 53 \<Longrightarrow> to_float (PyInt a) = of_int a"
  by (simp add: fl_of_int)

lemma to_float_PyInt_0: "to_float (PyInt a) = 0 \<longleftrightarrow> a = 0"
  by (simp add: fl_eq_0_iff)

lemma py_pow_nonneg: "0 \<le> b \<Longrightarrow> py_pow a b = Some (PyInt (a ^ nat b))"
  by (simp add: py_pow_def)

lemma py_pow_neg:
  "b < 0 \<Longrightarrow> a \<noteq> 0 \<Longrightarrow> py_pow a b = Some (PyFloat (fl (1 / fl (of_int a) ^ nat (- b))))"
  by (simp add: py_pow_def)

lemma py_pow_total: "a \<noteq> 0 \<Longrightarrow> \<exists>p. py_pow a b = Some p"
  by (simp add: py_pow_def)

lemma py_div_total: "eta \<noteq> 0 \<Longrightarrow> \<exists>k. py_div x (PyInt eta) = Some k"
  by (cases x) (simp_all add: fl_eq_0_iff)

subsection \<open>The schedule\<close>

text \<open>
  What line 358 computes: both divisions are floor divisions of ints, so the ceiling is
  taken of a whole number, which the conversion to a float leaves alone below \<open>2 ^ 53\<close>.
\<close>

lemma bracket_n_value:
  assumes "max_iter \<noteq> 0" "0 \<le> s" "\<bar>Bv div max_iter div (s + 1) * eta ^ nat s\<bar> \<le> 2 ^ 53"
  shows "bracket_n eta max_iter Bv s = Some (Bv div max_iter div (s + 1) * eta ^ nat s)"
proof -
  let ?p = "Bv div max_iter div (s + 1) * eta ^ nat s"
  have f: "fl (real_of_int ?p) = real_of_int ?p" using assms(3) by (rule fl_of_int)
  have "py_int (math_ceil (PyInt ?p)) = trunc (of_int \<lceil>fl (real_of_int ?p)\<rceil>)"
    by (simp only: math_ceil_def to_float.simps py_int.simps)
  also have "\<dots> = ?p" by (simp only: f ceiling_of_int trunc_of_int)
  finally have "py_int (math_ceil (PyInt ?p)) = ?p" .
  then show ?thesis using assms(1,2) by (simp add: bracket_n_def py_pow_nonneg)
qed

lemma bracket_n_total:
  assumes "max_iter \<noteq> 0" "0 \<le> s"
  shows "\<exists>n. bracket_n eta max_iter Bv s = Some n"
  using assms by (simp add: bracket_n_def py_pow_nonneg)

lemma bracket_r_total:
  assumes "eta \<noteq> 0"
  shows "\<exists>r. bracket_r eta max_iter s = Some r"
  using py_pow_total [OF assms, of "- s"] by (auto simp add: bracket_r_def)

text \<open>The number of brackets: the quotient of the two logarithms is not negative.\<close>

lemma logeta_nonneg:
  assumes "1 < eta" "1 \<le> max_iter"
  shows "0 < fl (ln (fl (of_int eta)))"
    and "0 \<le> fl (fl (ln (fl (of_int max_iter))) / fl (ln (fl (of_int eta))))"
proof -
  have "(2::real) \<le> of_int eta" using assms(1) by simp
  then have "fl 2 \<le> fl (of_int eta)" by (rule fl_mono)
  moreover have "fl 2 = 2" using fl_of_int [of 2] by simp
  ultimately have "1 < fl (of_int eta)" by simp
  then have "0 < ln (fl (of_int eta))" by simp
  then show b: "0 < fl (ln (fl (of_int eta)))" by (rule fl_pos)
  have "(1::real) \<le> of_int max_iter" using assms(2) by simp
  then have "fl 1 \<le> fl (of_int max_iter)" by (rule fl_mono)
  then have "1 \<le> fl (of_int max_iter)" by (simp only: fl_1)
  then have "0 \<le> ln (fl (of_int max_iter))" by simp
  then have "0 \<le> fl (ln (fl (of_int max_iter)))" by (rule fl_nonneg)
  then have "0 \<le> fl (ln (fl (of_int max_iter))) / fl (ln (fl (of_int eta)))" using b by simp
  then show "0 \<le> fl (fl (ln (fl (of_int max_iter))) / fl (ln (fl (of_int eta))))" by (rule fl_nonneg)
qed

lemma s_max_value:
  assumes "1 < eta" "1 \<le> max_iter"
  shows "s_max eta max_iter = Some \<lfloor>fl (fl (ln (fl (of_int max_iter))) / fl (ln (fl (of_int eta))))\<rfloor>"
  using assms logeta_nonneg [OF assms]
  by (simp add: s_max_def logeta_def math_log_def trunc_nonneg)

lemma ln_3_60: "7 * ln 3 \<le> 2 * ln (60::real)" "10 * ln (60::real) \<le> 39 * ln 3"
proof -
  have a: "ln ((3::real) ^ 7) = 7 * ln 3" "ln ((60::real) ^ 2) = 2 * ln 60"
    "ln ((60::real) ^ 10) = 10 * ln 60" "ln ((3::real) ^ 39) = 39 * ln 3"
    by (simp_all only: ln_realpow zero_less_numeral of_nat_numeral)
  have "ln ((3::real) ^ 7) \<le> ln (60 ^ 2)" by simp
  then show "7 * ln 3 \<le> 2 * ln (60::real)" by (simp only: a)
  have "ln ((60::real) ^ 10) \<le> ln (3 ^ 39)" by simp
  then show "10 * ln (60::real) \<le> 39 * ln 3" by (simp only: a)
qed

lemma logeta_3_60:
  "3 \<le> fl (fl (ln 60) / fl (ln 3))" "fl (fl (ln 60) / fl (ln 3)) \<le> 63 / 16"
proof -
  let ?a = "fl (ln 60)" and ?b = "fl (ln 3)"
  have A: "0 < ln (60::real)" and Bx: "0 < ln (3::real)" by simp_all
  note a = fl_lower [OF A] fl_upper [OF A]
  note b = fl_lower [OF Bx] fl_upper [OF Bx]
  have bp: "0 < ?b" using Bx by (rule fl_pos)
  have "3 * ?b \<le> ?a" using a b ln_3_60 A Bx by linarith
  then have "3 \<le> ?a / ?b" using bp by (simp add: pos_le_divide_eq)
  then have "fl 3 \<le> fl (?a / ?b)" by (rule fl_mono)
  then show "3 \<le> fl (?a / ?b)" by (simp only: fl_3)
  have "?a \<le> 63 / 16 * ?b" using a b ln_3_60 A Bx by linarith
  then have "?a / ?b \<le> 63 / 16" using bp by (simp add: pos_divide_le_eq)
  then have "fl (?a / ?b) \<le> fl (63 / 16)" by (rule fl_mono)
  moreover have "fl (63 / 16) = 63 / 16"
    using fl_dyadic [of 63 "- 4"] by (simp add: powr_minus divide_simps)
  ultimately show "fl (?a / ?b) \<le> 63 / 16" by simp
qed

lemma s_max_3_60: "s_max 3 60 = Some 3"
proof -
  have "\<lfloor>fl (fl (ln 60) / fl (ln 3))\<rfloor> = 3"
    using logeta_3_60 by (simp add: floor_eq_iff)
  then show ?thesis using s_max_value [of 3 60] by (simp add: fl_3 fl_60)
qed

lemma s_max_3_3: "s_max 3 3 = Some 1"
proof -
  have "0 < fl (ln 3)" by (intro fl_pos) simp
  then have "fl (ln 3) / fl (ln 3) = 1" by simp
  then have "\<lfloor>fl (fl (ln 3) / fl (ln 3))\<rfloor> = 1" by (simp add: fl_1)
  then show ?thesis using s_max_value [of 3 3] by (simp add: fl_3)
qed

subsection \<open>Sorting and pruning\<close>

lemma stable_argsort_ok: "argsort_ok stable_argsort"
  by (simp add: argsort_ok_def stable_argsort_def)

lemma argsort_ok_length: "argsort_ok f \<Longrightarrow> length (f v) = length v"
proof -
  assume a: "argsort_ok f"
  then have "distinct (f v)" and "set (f v) = {0..<length v}" by (simp_all add: argsort_ok_def)
  then have "length (f v) = card {0..<length v}" using distinct_card by metis
  then show ?thesis by simp
qed

lemma argsort_ok_bound: "argsort_ok f \<Longrightarrow> i \<in> set (f v) \<Longrightarrow> i < length v"
  by (auto simp add: argsort_ok_def)

lemma argsort_ok_Nil: "argsort_ok f \<Longrightarrow> f [] = []"
  using argsort_ok_length [of f "[]"] by simp

lemma those_map_py_index:
  "(\<And>i. i \<in> set idx \<Longrightarrow> i < length xs) \<Longrightarrow> those (map (py_index xs) idx) = Some (map (\<lambda>i. xs ! i) idx)"
  by (induction idx) (simp_all add: py_index_def)

lemma prune_value:
  assumes "argsort_ok (argsort E)" "length v = length Tr"
  shows "prune E Tr v k = Some (map (\<lambda>i. Tr ! i) (py_slice_to (argsort E v) k))"
proof -
  have "i < length Tr" if "i \<in> set (py_slice_to (argsort E v) k)" for i
  proof -
    from that have "i \<in> set (argsort E v)"
      by (auto simp add: py_slice_to_def dest: in_set_takeD split: if_splits)
    then show ?thesis using assms argsort_ok_bound by metis
  qed
  then show ?thesis unfolding prune_def by (rule those_map_py_index)
qed

lemma py_slice_to_length: "length (py_slice_to xs k) \<le> length xs"
  by (auto simp add: py_slice_to_def)

lemma sorted_take_drop:
  assumes "sorted (map f xs)"
  shows "sorted (map f (take k xs)) \<and> (\<forall>a \<in> set (take k xs). \<forall>b \<in> set (drop k xs). f a \<le> f b)"
proof -
  have "sorted (map f (take k xs) @ map f (drop k xs))"
    using assms by (simp only: map_append [symmetric] append_take_drop_id)
  then show ?thesis by (auto simp add: sorted_append)
qed

subsection \<open>One pass over the pool\<close>

lemma fold_evaluate_length:
  "length (fst (fold (evaluate E r) Tr (vl, st))) = length vl + length Tr"
  by (induction Tr arbitrary: vl st) (simp_all add: evaluate_def Let_def)

lemma fold_evaluate_invariant:
  assumes "P st" and step: "\<And>t vl st. P st \<Longrightarrow> P (snd (evaluate E r t (vl, st)))"
  shows "P (snd (fold (evaluate E r) Tr (vl, st)))"
  using assms(1)
proof (induction Tr arbitrary: vl st)
  case Nil
  then show ?case by simp
next
  case (Cons t Tr)
  have "P (snd (evaluate E r t (vl, st)))" using Cons.prems by (rule step)
  then have "P (snd (fold (evaluate E r) Tr (fst (evaluate E r t (vl, st)), snd (evaluate E r t (vl, st)))))"
    by (rule Cons.IH)
  then show ?case by simp
qed




lemma sorted_snoc_raise:
  "sorted (xs @ [b]) \<Longrightarrow> b \<le> b' \<Longrightarrow> sorted (xs @ [b', b'])"
  by (auto simp add: sorted_append)

lemma evaluate_best_monotone:
  assumes "sorted (0 # map snd (hyperband_evals st) @ [best_val_acc st])"
  shows "sorted (0 # map snd (hyperband_evals (snd (evaluate E r t (vl, st))))
                 @ [best_val_acc (snd (evaluate E r t (vl, st)))])"
proof -
  let ?a = "fst (main E (length (calls st)) t (to_float r))"
  let ?b = "if ?a > best_val_acc st then ?a else best_val_acc st"
  have "sorted ((0 # map snd (hyperband_evals st)) @ [best_val_acc st])" using assms by simp
  moreover have "best_val_acc st \<le> ?b" by simp
  ultimately have "sorted ((0 # map snd (hyperband_evals st)) @ [?b, ?b])"
    by (rule sorted_snoc_raise)
  then show ?thesis by (simp add: evaluate_def Let_def)
qed

lemma expected_log_snoc:
  "expected_log c b (cs @ [(t, r, a, ts)]) =
     expected_log c b cs @
       [(fl (fst (last ((c, b) # expected_log c b cs)) + fl (ts / 60)),
         max (snd (last ((c, b) # expected_log c b cs))) a)]"
proof (induction cs arbitrary: c b)
  case Nil
  then show ?case by simp
next
  case (Cons x cs)
  obtain t' r' a' ts' where x: "x = (t', r', a', ts')" by (cases x) auto
  show ?case using Cons.IH [of "fl (c + fl (ts' / 60))" "max b a'"] by (simp add: x)
qed

lemma expected_log_length: "length (expected_log c b cs) = length cs"
  by (induction c b cs rule: expected_log.induct) simp_all

lemma evaluate_state:
  assumes "main E (length (calls st)) t (to_float r) = (a, ts)"
  shows "snd (evaluate E r t (vl, st)) =
           st\<lparr>nevals := fl (nevals st + fl (ts / 60)),
              best_val_acc := max (best_val_acc st) a,
              hyperband_evals := hyperband_evals st @ [(fl (nevals st + fl (ts / 60)), max (best_val_acc st) a)],
              calls := calls st @ [(t, to_float r, a, ts)]\<rparr>"
  using assms by (simp add: evaluate_def Let_def max_def)

lemma evaluate_totals_logged:
  assumes "totals_logged st"
  shows "totals_logged (snd (evaluate E r t (vl, st)))"
proof -
  obtain a ts where m: "main E (length (calls st)) t (to_float r) = (a, ts)"
    by (cases "main E (length (calls st)) t (to_float r)") auto
  have l: "last ((0, 0) # expected_log 0 0 (calls st)) = (nevals st, best_val_acc st)"
    using assms by (simp add: totals_logged_def)
  have e: "expected_log 0 0 (calls st @ [(t, to_float r, a, ts)]) =
             expected_log 0 0 (calls st) @ [(fl (nevals st + fl (ts / 60)), max (best_val_acc st) a)]"
    by (simp only: expected_log_snoc l fst_conv snd_conv)
  show ?thesis
    unfolding evaluate_state [OF m] using assms e by (simp add: totals_logged_def)
qed

lemma tracked_refl: "tracked st st"
  by (simp add: tracked_def)

lemma tracked_draws: "tracked st0 st \<Longrightarrow> tracked st0 (st\<lparr>draws := d\<rparr>)"
  by (simp add: tracked_def)

lemma tracked_evaluate:
  assumes "tracked st0 st"
  shows "tracked st0 (snd (evaluate E r t (vl, st)))"
proof -
  obtain a ts where m: "main E (length (calls st)) t (to_float r) = (a, ts)"
    by (cases "main E (length (calls st)) t (to_float r)") auto
  from assms obtain new where new: "calls st = calls st0 @ new"
    "\<forall>c \<in> set new. fst (snd (snd c)) \<le> best_val_acc st" and b: "best_val_acc st0 \<le> best_val_acc st"
    by (auto simp add: tracked_def)
  let ?new = "new @ [(t, to_float r, a, ts)]"
  have "calls st @ [(t, to_float r, a, ts)] = calls st0 @ ?new" using new(1) by simp
  moreover have "\<forall>c \<in> set ?new. fst (snd (snd c)) \<le> max (best_val_acc st) a"
    using new(2) by auto
  moreover have "best_val_acc st0 \<le> max (best_val_acc st) a" using b by simp
  ultimately show ?thesis
    unfolding evaluate_state [OF m] tracked_def by (simp del: set_append)
qed

subsection \<open>Rungs and brackets\<close>

text \<open>What a rung returns, given the count that line 400 computes.\<close>

lemma rung_value:
  assumes ok: "argsort_ok (argsort E)" and i: "0 \<le> i"
    and k: "keep_count eta n i = Some k" "0 \<le> k"
  shows "rung E eta n r i Tr st =
           Some (map (\<lambda>j. Tr ! j)
                   (take (nat k)
                      (argsort E (fst (fold (evaluate E (py_mul r (PyInt (eta ^ nat i)))) Tr ([], st))))),
                 snd (fold (evaluate E (py_mul r (PyInt (eta ^ nat i)))) Tr ([], st)))"
proof -
  from k(1) obtain p kf where p: "py_pow eta (- i) = Some p"
    and kf: "py_div (py_mul (PyInt n) p) (PyInt eta) = Some kf"
    and kv: "py_int kf = k"
    by (auto simp add: keep_count_def split: bind_splits)
  let ?run = "fold (evaluate E (py_mul r (PyInt (eta ^ nat i)))) Tr ([], st)"
  have len: "length (fst ?run) = length Tr" by (simp add: fold_evaluate_length)
  have "prune E Tr (fst ?run) (py_int kf)
        = Some (map (\<lambda>j. Tr ! j) (take (nat k) (argsort E (fst ?run))))"
    using prune_value [OF ok len] kv k(2) by (simp add: py_slice_to_def)
  then show ?thesis
    using p kf i by (simp add: rung_def py_pow_nonneg Let_def)
qed

lemma keep_count_0: "eta \<noteq> 0 \<Longrightarrow> keep_count eta n 0 = Some (n div eta)"
  by (simp add: keep_count_def py_pow_def)

lemma rung_total:
  assumes ok: "argsort_ok (argsort E)" and nz: "eta \<noteq> 0"
  shows "\<exists>Tr' st'. rung E eta n r i Tr st = Some (Tr', st')"
proof -
  obtain p where p: "py_pow eta (- i) = Some p" using py_pow_total [OF nz] by blast
  obtain q where q: "py_pow eta i = Some q" using py_pow_total [OF nz] by blast
  obtain k where k: "py_div (py_mul (PyInt n) p) (PyInt eta) = Some k"
    using py_div_total [OF nz] by blast
  let ?run = "fold (evaluate E (py_mul r q)) Tr ([], st)"
  have len: "length (fst ?run) = length Tr" by (simp add: fold_evaluate_length)
  show ?thesis
    using p q k prune_value [OF ok len] by (simp add: rung_def Let_def)
qed

text \<open>A rung never returns more configurations than it was given.\<close>

lemma rung_length_le:
  assumes ok: "argsort_ok (argsort E)" and r: "rung E eta n r i Tr st = Some (Tr', st')"
  shows "length Tr' \<le> length Tr"
proof -
  from r obtain q k where
    p: "prune E Tr (fst (fold (evaluate E (py_mul r q)) Tr ([], st))) k = Some Tr'"
    by (auto simp add: rung_def Let_def split: bind_splits)
  let ?v = "fst (fold (evaluate E (py_mul r q)) Tr ([], st))"
  have len: "length ?v = length Tr" by (simp add: fold_evaluate_length)
  have "Tr' = map (\<lambda>j. Tr ! j) (py_slice_to (argsort E ?v) k)"
    using p prune_value [OF ok len, of k] by simp
  then have "length Tr' \<le> length (argsort E ?v)" by (simp add: py_slice_to_length)
  then show ?thesis using argsort_ok_length [OF ok, of ?v] len by simp
qed

lemma rung_empty_pool:
  assumes ok: "argsort_ok (argsort E)" and nz: "eta \<noteq> 0"
  shows "rung E eta n r i [] st = Some ([], st)"
proof -
  obtain p where p: "py_pow eta (- i) = Some p" using py_pow_total [OF nz] by blast
  obtain q where q: "py_pow eta i = Some q" using py_pow_total [OF nz] by blast
  obtain k where k: "py_div (py_mul (PyInt n) p) (PyInt eta) = Some k"
    using py_div_total [OF nz] by blast
  have "prune E [] [] (py_int k) = Some []"
    using argsort_ok_Nil [OF ok] by (simp add: prune_def py_slice_to_def)
  then show ?thesis using p q k by (simp add: rung_def Let_def)
qed

lemma rung_invariant:
  assumes "rung E eta n r i Tr st = Some (Tr', st')" and "P st"
    and step: "\<And>r t vl st. P st \<Longrightarrow> P (snd (evaluate E r t (vl, st)))"
  shows "P st'"
proof -
  from assms(1) obtain r_i where "st' = snd (fold (evaluate E r_i) Tr ([], st))"
    by (auto simp add: rung_def Let_def split: bind_splits)
  then show ?thesis using fold_evaluate_invariant [of P st E r_i Tr "[]"] assms(2) step by simp
qed

lemma halving_invariant:
  assumes "halving E eta n r rungs Tr st = Some (Tr', st')" and "P st"
    and step: "\<And>r t vl st. P st \<Longrightarrow> P (snd (evaluate E r t (vl, st)))"
  shows "P st'"
  using assms(1,2)
proof (induction rungs arbitrary: Tr st)
  case Nil
  then show ?case by simp
next
  case (Cons i rungs)
  from Cons.prems(1) obtain Tr1 st1 where r1: "rung E eta n r i Tr st = Some (Tr1, st1)"
    and h: "halving E eta n r rungs Tr1 st1 = Some (Tr', st')"
    by (auto split: option.splits)
  have "P st1" using r1 Cons.prems(2) step by (rule rung_invariant)
  with h show ?case by (rule Cons.IH)
qed

lemma halving_total:
  assumes ok: "argsort_ok (argsort E)" and nz: "eta \<noteq> 0"
  shows "\<exists>Tr' st'. halving E eta n r rungs Tr st = Some (Tr', st')"
proof (induction rungs arbitrary: Tr st)
  case Nil
  then show ?case by simp
next
  case (Cons i rungs)
  obtain Tr1 st1 where r1: "rung E eta n r i Tr st = Some (Tr1, st1)"
    using rung_total [OF ok nz] by blast
  then show ?case using Cons.IH [of Tr1 st1] by simp
qed

lemma halving_append:
  "halving E eta n r (xs @ ys) Tr st =
     (case halving E eta n r xs Tr st of None \<Rightarrow> None | Some (Tr1, st1) \<Rightarrow> halving E eta n r ys Tr1 st1)"
  by (induction xs arbitrary: Tr st) (auto split: option.splits)

lemma bracket_invariant:
  assumes "bracket E eta max_iter Bv s st = Some (Tr', st')" and "P st"
    and step: "\<And>r t vl st. P st \<Longrightarrow> P (snd (evaluate E r t (vl, st)))"
    and frame: "\<And>st d. P st \<Longrightarrow> P (st\<lparr>draws := d\<rparr>)"
  shows "P st'"
proof -
  from assms(1) obtain n r where
    h: "halving E eta n r [0..s] (fst (sample_pool E n st)) (snd (sample_pool E n st)) = Some (Tr', st')"
    by (auto simp add: bracket_def Let_def split: bind_splits)
  have "P (snd (sample_pool E n st))" using assms(2) by (simp add: sample_pool_def frame)
  with h show ?thesis using step by (rule halving_invariant)
qed

lemma bracket_total:
  assumes ok: "argsort_ok (argsort E)" and nz: "eta \<noteq> 0" "max_iter \<noteq> 0" and s: "0 \<le> s"
  shows "\<exists>Tr' st'. bracket E eta max_iter Bv s st = Some (Tr', st')"
proof -
  obtain n where n: "bracket_n eta max_iter Bv s = Some n"
    using bracket_n_total [OF nz(2) s] by blast
  obtain r where r: "bracket_r eta max_iter s = Some r" using bracket_r_total [OF nz(1)] by blast
  show ?thesis using n r halving_total [OF ok nz(1)] by (simp add: bracket_def Let_def)
qed

lemma brackets_invariant:
  assumes "brackets E eta max_iter Bv ss st = Some st'" and "P st"
    and step: "\<And>r t vl st. P st \<Longrightarrow> P (snd (evaluate E r t (vl, st)))"
    and frame: "\<And>st d. P st \<Longrightarrow> P (st\<lparr>draws := d\<rparr>)"
  shows "P st'"
  using assms(1,2)
proof (induction ss arbitrary: st)
  case Nil
  then show ?case by simp
next
  case (Cons s ss)
  from Cons.prems(1) obtain Tr1 st1 where b: "bracket E eta max_iter Bv s st = Some (Tr1, st1)"
    and rest: "brackets E eta max_iter Bv ss st1 = Some st'"
    by (auto split: option.splits)
  have "P st1" using b Cons.prems(2) step frame by (rule bracket_invariant)
  with rest show ?case by (rule Cons.IH)
qed

lemma brackets_total:
  assumes ok: "argsort_ok (argsort E)" and nz: "eta \<noteq> 0" "max_iter \<noteq> 0" and s: "\<forall>s \<in> set ss. 0 \<le> s"
  shows "\<exists>st'. brackets E eta max_iter Bv ss st = Some st'"
  using s
proof (induction ss arbitrary: st)
  case Nil
  then show ?case by simp
next
  case (Cons s ss)
  then have "0 \<le> s" by simp
  then obtain Tr1 st1 where b: "bracket E eta max_iter Bv s st = Some (Tr1, st1)"
    using bracket_total [OF ok nz] by blast
  then show ?case using Cons.IH [of st1] Cons.prems by simp
qed

text \<open>The search returns, whatever the training runs and the draws are.\<close>

lemma hyperband_total:
  assumes ok: "argsort_ok (argsort E)" and "1 < eta" "1 \<le> max_iter"
  shows "\<exists>st. hyperband E eta max_iter = Some st"
proof -
  let ?sm = "\<lfloor>fl (fl (ln (fl (of_int max_iter))) / fl (ln (fl (of_int eta))))\<rfloor>"
  have sm: "s_max eta max_iter = Some ?sm" using assms(2,3) by (rule s_max_value)
  have "\<forall>s \<in> set (rev [0..?sm]). 0 \<le> s" by simp
  then have "\<exists>st. brackets E eta max_iter (B ?sm max_iter) (rev [0..?sm]) init_state = Some st"
    using brackets_total [OF ok] assms by simp
  then show ?thesis using sm by (simp add: hyperband_def)
qed

subsection \<open>Pool sizes where the counts are exact\<close>

lemma div_power_Suc:
  assumes "0 < (eta::int)"
  shows "n div eta ^ (k + 1) = n div eta ^ k div eta"
proof -
  have "eta ^ (k + 1) = eta ^ k * eta" by simp
  moreover have "n div (eta ^ k * eta) = n div eta ^ k div eta"
    using assms by (simp only: zdiv_zmult2_eq less_imp_le)
  ultimately show ?thesis by (simp only:)
qed

lemma div_power_Suc_le:
  assumes "0 < (eta::int)" "0 \<le> n"
  shows "n div eta ^ (k + 1) \<le> n div eta ^ k"
proof -
  have "0 \<le> n div eta ^ k" using assms by (simp add: pos_imp_zdiv_nonneg_iff)
  then have "n div eta ^ k div eta \<le> n div eta ^ k div 1" using assms(1)
    by (intro zdiv_mono2) simp_all
  then show ?thesis using assms by (simp only: div_power_Suc div_by_1)
qed

lemma rung_pool_size:
  assumes ok: "argsort_ok (argsort E)" and i: "0 \<le> i"
    and k: "keep_count eta n i = Some k" "0 \<le> k"
    and r: "rung E eta n r i Tr st = Some (Tr', st')"
  shows "length Tr' = min (length Tr) (nat k)"
proof -
  let ?v = "fst (fold (evaluate E (py_mul r (PyInt (eta ^ nat i)))) Tr ([], st))"
  have "length (argsort E ?v) = length Tr"
    using argsort_ok_length [OF ok] by (simp add: fold_evaluate_length)
  then show ?thesis using r rung_value [OF ok i k, of r Tr st] by auto
qed

lemma rung_pool_size_reached:
  assumes ok: "argsort_ok (argsort E)" and pos: "0 < eta" "0 \<le> n" "0 \<le> i"
    and k: "keep_count eta n i = Some (n div eta ^ (nat i + 1))"
    and r: "rung E eta n r i Tr st = Some (Tr', st')"
    and len: "length Tr = nat (n div eta ^ nat i)"
  shows "length Tr' = nat (n div eta ^ nat (i + 1))"
proof -
  have nn: "0 \<le> n div eta ^ (nat i + 1)" using pos by (simp add: pos_imp_zdiv_nonneg_iff)
  have "n div eta ^ (nat i + 1) \<le> n div eta ^ nat i" using pos by (simp only: div_power_Suc_le)
  then have "nat (n div eta ^ (nat i + 1)) \<le> nat (n div eta ^ nat i)" by (rule nat_mono)
  then have "min (nat (n div eta ^ nat i)) (nat (n div eta ^ (nat i + 1))) = nat (n div eta ^ (nat i + 1))"
    by (rule min_absorb2)
  moreover have "nat (i + 1) = nat i + 1" using pos by simp
  ultimately show ?thesis using rung_pool_size [OF ok pos(3) k nn r] len by (simp only:)
qed

lemma halving_pool_size:
  assumes ok: "argsort_ok (argsort E)" and pos: "0 < eta" "0 \<le> n"
    and exact: "\<And>j. 0 \<le> j \<Longrightarrow> j \<le> s \<Longrightarrow> keep_count eta n j = Some (n div eta ^ (nat j + 1))"
  shows "0 \<le> i \<Longrightarrow> i \<le> j + 1 \<Longrightarrow> j \<le> s \<Longrightarrow> length Tr = nat (n div eta ^ nat i)
         \<Longrightarrow> halving E eta n r [i..j] Tr st = Some (Tr', st')
         \<Longrightarrow> length Tr' = nat (n div eta ^ nat (j + 1))"
proof (induction "nat (j + 1 - i)" arbitrary: i Tr st)
  case 0
  then have "i = j + 1" by simp
  then have "[i..j] = []" by simp
  with 0 show ?case using \<open>i = j + 1\<close> by simp
next
  case (Suc k)
  then have le: "i \<le> j" by simp
  then have u: "[i..j] = i # [i + 1..j]" by (simp add: upto.simps)
  from Suc.prems(5) obtain Tr1 st1 where r1: "rung E eta n r i Tr st = Some (Tr1, st1)"
    and h: "halving E eta n r [i + 1..j] Tr1 st1 = Some (Tr', st')"
    by (auto simp add: u split: option.splits)
  have ki: "keep_count eta n i = Some (n div eta ^ (nat i + 1))"
    using exact [of i] Suc.prems(1,3) le by simp
  have l1: "length Tr1 = nat (n div eta ^ nat (i + 1))"
    using rung_pool_size_reached [OF ok pos Suc.prems(1) ki r1 Suc.prems(4)] .
  have "k = nat (j + 1 - (i + 1))" using Suc.hyps(2) by simp
  then show ?case using Suc.hyps(1) [of "i + 1" Tr1 st1] Suc.prems(1,3) le l1 h by simp
qed


subsection \<open>The world of the examples\<close>

lemma demo_env_ok: "argsort_ok (argsort demo_env)"
  by (simp add: demo_env_def stable_argsort_ok)


lemma demo_pool_length: "length demo_pool = nat 9"
  by (simp add: demo_pool_def sample_pool_def)

lemma demo_pool_start:
  "halving demo_env 3 9 r [0..0 - 1] demo_pool demo_start = Some (demo_pool, demo_start)"
  by simp

lemma hyperband_3_3: "hyperband E 3 3 = brackets E 3 3 (B 1 3) [1, 0] init_state"
proof -
  have "rev [0..1::int] = [1, 0]" by (simp add: upto.simps)
  then show ?thesis by (simp add: hyperband_def s_max_3_3)
qed

subsection \<open>The counts of line 400 in doubles\<close>

text \<open>
  For \<open>i > 0\<close> the count is \<^verbatim>\<open>int(n*eta**(-i)/eta)\<close> with three roundings: of the
  power, of the product and of the quotient.
\<close>

lemma keep_count_pos:
  assumes "eta \<noteq> 0" "0 < i"
  shows "keep_count eta n i =
           Some (trunc (fl (fl (fl (of_int n) * fl (1 / fl (of_int eta) ^ nat i)) / fl (of_int eta))))"
  using assms by (simp add: keep_count_def py_pow_neg fl_eq_0_iff)

lemma fl_lower_factor: "0 < z \<Longrightarrow> z * (9007199254740991 / 9007199254740992) \<le> fl z"
  using fl_lower [of z] by simp

lemma fl_upper_factor: "0 < z \<Longrightarrow> fl z \<le> z * (9007199254740993 / 9007199254740992)"
  using fl_upper [of z] by simp

text \<open>Three roundings move the exact quotient \<open>N / e ^ (j + 1)\<close> by less than four parts in \<open>2 ^ 53\<close>.\<close>

lemma three_roundings:
  fixes N e :: real
  assumes N: "0 < N" and e: "0 < e"
  shows "N / e ^ (j + 1) * (9007199254740988 / 9007199254740992) \<le> fl (fl (N * fl (1 / e ^ j)) / e)"
    and "fl (fl (N * fl (1 / e ^ j)) / e) \<le> N / e ^ (j + 1) * (9007199254740996 / 9007199254740992)"
proof -
  let ?l = "9007199254740991 / 9007199254740992 :: real"
  let ?h = "9007199254740993 / 9007199254740992 :: real"
  let ?y = "1 / e ^ j"
  let ?p = "fl ?y"
  let ?a = "fl (N * ?p)"
  let ?q = "fl (?a / e)"
  let ?x = "N / e ^ (j + 1)"
  have y: "0 < ?y" using e by simp
  have p: "0 < ?p" using y by (rule fl_pos)
  have Np: "0 < N * ?p" using N p by simp
  have a: "0 < ?a" using Np by (rule fl_pos)
  have ae: "0 < ?a / e" using a e by simp
  have x: "?x = N * ?y / e" by simp
  have x0: "0 \<le> ?x" using N e by simp
  have p1: "?y * ?l \<le> ?p" using y by (rule fl_lower_factor)
  have p2: "?p \<le> ?y * ?h" using y by (rule fl_upper_factor)
  have "N * (?y * ?l) \<le> N * ?p" using p1 N by (intro mult_left_mono) simp_all
  then have n1: "N * ?y * ?l \<le> N * ?p" by (simp only: mult.assoc)
  have "N * ?p \<le> N * (?y * ?h)" using p2 N by (intro mult_left_mono) simp_all
  then have n2: "N * ?p \<le> N * ?y * ?h" by (simp only: mult.assoc)
  have "N * ?y * ?l * ?l \<le> N * ?p * ?l" using n1 by (intro mult_right_mono) simp_all
  also have "\<dots> \<le> ?a" using Np by (rule fl_lower_factor)
  finally have a1: "N * ?y * ?l * ?l \<le> ?a" .
  have "?a \<le> N * ?p * ?h" using Np by (rule fl_upper_factor)
  also have "\<dots> \<le> N * ?y * ?h * ?h" using n2 by (intro mult_right_mono) simp_all
  finally have a2: "?a \<le> N * ?y * ?h * ?h" .
  have d1: "N * ?y * ?l * ?l / e \<le> ?a / e" using a1 e by (intro divide_right_mono) simp_all
  have d2: "?a / e \<le> N * ?y * ?h * ?h / e" using a2 e by (intro divide_right_mono) simp_all
  have "N * ?y * ?l * ?l / e * ?l \<le> ?a / e * ?l" using d1 by (intro mult_right_mono) simp_all
  also have "\<dots> \<le> ?q" using ae by (rule fl_lower_factor)
  finally have q1: "N * ?y * ?l * ?l / e * ?l \<le> ?q" .
  have "?q \<le> ?a / e * ?h" using ae by (rule fl_upper_factor)
  also have "\<dots> \<le> N * ?y * ?h * ?h / e * ?h" using d2 by (intro mult_right_mono) simp_all
  finally have q2: "?q \<le> N * ?y * ?h * ?h / e * ?h" .
  have l3: "N * ?y * ?l * ?l / e * ?l = ?x * (?l * ?l * ?l)" unfolding x by simp
  have h3: "N * ?y * ?h * ?h / e * ?h = ?x * (?h * ?h * ?h)" unfolding x by simp
  have "?x * (9007199254740988 / 9007199254740992) \<le> ?x * (?l * ?l * ?l)"
    using x0 by (intro mult_left_mono) simp_all
  also have "\<dots> \<le> ?q" using q1 by (simp only: l3)
  finally show "?x * (9007199254740988 / 9007199254740992) \<le> ?q" .
  have "?q \<le> ?x * (?h * ?h * ?h)" using q2 by (simp only: h3)
  also have "\<dots> \<le> ?x * (9007199254740996 / 9007199254740992)"
    using x0 by (intro mult_left_mono) simp_all
  finally show "?q \<le> ?x * (9007199254740996 / 9007199254740992)" .
qed

text \<open>With \<open>eta = 2\<close> nothing is rounded, as long as \<open>n\<close> has at most 53 bits.\<close>

lemma powr_neg_int: "(2::real) powr of_int (- int m) = 1 / 2 ^ m"
  by (simp add: powr_minus powr_realpow inverse_eq_divide)

lemma halvings_exact:
  assumes "\<bar>n\<bar> \<le> 2 ^ 53"
  shows "fl (fl (of_int n * fl (1 / 2 ^ j)) / 2) = of_int n / 2 ^ (j + 1)"
proof -
  note p = powr_neg_int [of j]
  note p1 = powr_neg_int [of "j + 1"]
  have a: "fl (1 / 2 ^ j) = 1 / 2 ^ j"
    using fl_power_of_two [of "- int j"] by (simp only: p)
  have b: "fl (of_int n * (1 / 2 ^ j)) = of_int n * (1 / 2 ^ j)"
    using fl_dyadic [OF assms, of "- int j"] by (simp only: p)
  have c: "fl (of_int n * (1 / 2 ^ (j + 1))) = of_int n * (1 / 2 ^ (j + 1))"
    using fl_dyadic [OF assms, of "- int (j + 1)"] by (simp only: p1)
  have "real_of_int n * (1 / 2 ^ j) / 2 = of_int n * (1 / 2 ^ (j + 1))" by simp
  then have "fl (fl (of_int n * fl (1 / 2 ^ j)) / 2) = fl (of_int n * (1 / 2 ^ (j + 1)))"
    by (simp only: a b)
  also have "\<dots> = of_int n / 2 ^ (j + 1)" by (simp only: c) simp
  finally show ?thesis .
qed

lemma floor_gap: "q' + 1 \<le> q \<Longrightarrow> \<lfloor>q'\<rfloor> < \<lfloor>q :: real\<rfloor>"
  by linarith

text \<open>
  The double quotient of rung \<open>j\<close> and the bounds that hold of it, for a count \<open>n\<close> of at
  most 53 bits.
\<close>

lemma keep_count_bounds:
  assumes eta: "1 < eta" and n: "0 < n" "n \<le> 2 ^ 53" and en: "eta \<le> n" and j: "0 \<le> j"
  shows "\<exists>q. keep_count eta n j = Some \<lfloor>q\<rfloor> \<and> 0 \<le> q
           \<and> (eta = 2 \<longrightarrow> q = real_of_int n / 2 ^ (nat j + 1))
           \<and> real_of_int n / real_of_int eta ^ (nat j + 1) * (9007199254740988 / 9007199254740992) \<le> q
           \<and> q \<le> real_of_int n / real_of_int eta ^ (nat j + 1) * (9007199254740996 / 9007199254740992)"
proof (cases "j = 0")
  case True
  let ?x = "real_of_int n / real_of_int eta"
  have k: "keep_count eta n j = Some \<lfloor>?x\<rfloor>"
    using eta True by (simp add: keep_count_0 floor_divide_of_int_eq)
  have x0: "0 \<le> ?x" using eta n by simp
  have lo: "?x * (9007199254740988 / 9007199254740992) \<le> ?x" using x0 by simp
  have hi: "?x \<le> ?x * (9007199254740996 / 9007199254740992)" using x0 by simp
  show ?thesis
    by (rule exI [of _ ?x]) (use k x0 lo hi True in simp)
next
  case False
  then have jp: "0 < j" using j by simp
  have ne: "\<bar>n\<bar> \<le> 2 ^ 53" using n by simp
  have ee: "\<bar>eta\<bar> \<le> 2 ^ 53" using eta en n by simp
  have fn: "fl (of_int n) = of_int n" using ne by (rule fl_of_int)
  have fe: "fl (of_int eta) = of_int eta" using ee by (rule fl_of_int)
  let ?q = "fl (fl (of_int n * fl (1 / of_int eta ^ nat j)) / of_int eta)"
  let ?x = "real_of_int n / real_of_int eta ^ (nat j + 1)"
  have N: "0 < real_of_int n" and e: "0 < real_of_int eta" using n eta by simp_all
  note b = three_roundings [OF N e, of "nat j"]
  have x0: "0 \<le> ?x" using N e by simp
  have q0: "0 \<le> ?q" using b(1) x0 by (smt (verit) mult_nonneg_nonneg divide_nonneg_nonneg)
  have k: "keep_count eta n j = Some \<lfloor>?q\<rfloor>"
    using eta jp q0 by (simp add: keep_count_pos fn fe trunc_nonneg)
  have two: "?q = of_int n / 2 ^ (nat j + 1)" if "eta = 2"
    using halvings_exact [OF ne, of "nat j"] that by simp
  show ?thesis
    by (rule exI [of _ ?q]) (use k q0 two b in blast)
qed

text \<open>
  Where \<open>n / eta ^ (i + 1)\<close> is at least 1, rung \<open>i\<close> keeps fewer configurations than
  any earlier rung, and fewer than \<open>n\<close>.
\<close>

lemma keep_count_strict:
  assumes eta: "1 < eta" and n: "n \<le> 2 ^ 53" and ji: "0 \<le> j" "j < i"
    and big: "eta ^ (nat i + 1) \<le> n"
  shows "\<exists>kj ki. keep_count eta n j = Some kj \<and> keep_count eta n i = Some ki
           \<and> 0 \<le> ki \<and> ki < kj \<and> ki < n"
proof -
  let ?e = "real_of_int eta"
  let ?N = "real_of_int n"
  let ?a = "nat j" and ?b = "nat i"
  have ab: "?a < ?b" using ji by simp
  have e2: "2 \<le> ?e" using eta by simp
  have "eta ^ 1 \<le> eta ^ (?b + 1)" using eta by (intro power_increasing) simp_all
  then have en: "eta \<le> n" using big by simp
  have np: "0 < n" using en eta by simp
  have i0: "0 \<le> i" using ji by simp
  obtain qj where qj: "keep_count eta n j = Some \<lfloor>qj\<rfloor>" "0 \<le> qj"
    "eta = 2 \<longrightarrow> qj = ?N / 2 ^ (?a + 1)"
    "?N / ?e ^ (?a + 1) * (9007199254740988 / 9007199254740992) \<le> qj"
    using keep_count_bounds [OF eta np n en ji(1)] by blast
  obtain qi where qi: "keep_count eta n i = Some \<lfloor>qi\<rfloor>" "0 \<le> qi"
    "eta = 2 \<longrightarrow> qi = ?N / 2 ^ (?b + 1)"
    "qi \<le> ?N / ?e ^ (?b + 1) * (9007199254740996 / 9007199254740992)"
    using keep_count_bounds [OF eta np n en i0] by blast
  define xi where "xi = ?N / ?e ^ (?b + 1)"
  define xj where "xj = ?N / ?e ^ (?a + 1)"
  have qi4: "qi \<le> xi * (9007199254740996 / 9007199254740992)" using qi(4) by (simp only: xi_def)
  have qj4: "xj * (9007199254740988 / 9007199254740992) \<le> qj"
    using qj(4) by (simp only: xj_def)
  have two: "qi = xi \<and> qj = xj" if "eta = 2"
    using qi(3) qj(3) that by (simp add: xi_def xj_def)
  have "real_of_int (eta ^ (?b + 1)) \<le> ?N" using big by (simp only: of_int_le_iff)
  then have "?e ^ (?b + 1) \<le> ?N" by simp
  then have xi1: "1 \<le> xi" using e2 by (simp add: xi_def pos_le_divide_eq)
  have idx: "?b + 1 = (?a + 1) + (?b - ?a)" using ab by linarith
  have split: "?e ^ (?b + 1) = ?e ^ (?a + 1) * ?e ^ (?b - ?a)"
    by (subst idx) (rule power_add)
  have one: "1 \<le> ?b - ?a" using ab by linarith
  have "?e ^ 1 \<le> ?e ^ (?b - ?a)" using e2 one by (intro power_increasing) linarith+
  then have ge: "?e \<le> ?e ^ (?b - ?a)" by simp
  have xj: "xj = xi * ?e ^ (?b - ?a)" unfolding xi_def xj_def split using e2 by simp
  have "xi * ?e \<le> xi * ?e ^ (?b - ?a)" using ge xi1 by (intro mult_left_mono) simp_all
  then have xje: "xi * ?e \<le> xj" by (simp only: xj)
  have gap: "\<lfloor>qi\<rfloor> < \<lfloor>qj\<rfloor>"
  proof (cases "eta = 2")
    case True
    have "xi * 2 \<le> xj" using xje True by simp
    then have "qi + 1 \<le> qj" using xi1 two [OF True] by linarith
    then show ?thesis by (rule floor_gap)
  next
    case False
    then have "3 \<le> ?e" using eta by simp
    then have "xi * 3 \<le> xi * ?e" using xi1 by (intro mult_left_mono) simp_all
    then have x3: "xi * 3 \<le> xj" using xje by linarith
    have "qi + 1 \<le> qj" using qi4 qj4 x3 xi1 by linarith
    then show ?thesis by (rule floor_gap)
  qed
  have "?e ^ 1 \<le> ?e ^ (?b + 1)" using e2 by (intro power_increasing) simp_all
  then have "?e \<le> ?e ^ (?b + 1)" by (simp only: power_one_right)
  then have "2 \<le> ?e ^ (?b + 1)" using e2 by linarith
  then have "xi \<le> ?N / 2" unfolding xi_def using np by (intro divide_left_mono) simp_all
  then have "qi < ?N" using qi4 np by simp
  moreover have "of_int \<lfloor>qi\<rfloor> \<le> qi" by simp
  ultimately have "real_of_int \<lfloor>qi\<rfloor> < real_of_int n" by linarith
  then have lt: "\<lfloor>qi\<rfloor> < n" by (simp only: of_int_less_iff)
  have nn: "0 \<le> \<lfloor>qi\<rfloor>" using qi(2) by simp
  show ?thesis
    by (rule exI [of _ "\<lfloor>qj\<rfloor>"], rule exI [of _ "\<lfloor>qi\<rfloor>"])
       (use qj(1) qi(1) nn gap lt in blast)
qed

text \<open>A pool stays above a bound that every count on the way stays above.\<close>

lemma halving_pool_lower:
  assumes ok: "argsort_ok (argsort E)"
    and lower: "\<And>j. 0 \<le> j \<Longrightarrow> j \<le> j1 \<Longrightarrow> \<exists>k. keep_count eta n j = Some k \<and> int m \<le> k"
  shows "0 \<le> i0 \<Longrightarrow> m \<le> length Tr \<Longrightarrow> halving E eta n r [i0..j1] Tr st = Some (Tr', st')
         \<Longrightarrow> m \<le> length Tr'"
proof (induction "nat (j1 + 1 - i0)" arbitrary: i0 Tr st)
  case 0
  then have "[i0..j1] = []" by simp
  with 0 show ?case by simp
next
  case (Suc d)
  then have le: "i0 \<le> j1" by simp
  then have u: "[i0..j1] = i0 # [i0 + 1..j1]" by (simp add: upto.simps)
  from Suc.prems(3) obtain Tr1 st1 where r1: "rung E eta n r i0 Tr st = Some (Tr1, st1)"
    and h: "halving E eta n r [i0 + 1..j1] Tr1 st1 = Some (Tr', st')"
    by (auto simp add: u split: option.splits)
  obtain k where k: "keep_count eta n i0 = Some k" "int m \<le> k"
    using lower [OF Suc.prems(1) le] by blast
  have k0: "0 \<le> k" using k(2) by simp
  have "length Tr1 = min (length Tr) (nat k)"
    using rung_pool_size [OF ok Suc.prems(1) k(1) k0 r1] .
  moreover have "m \<le> nat k" using k(2) by simp
  ultimately have m1: "m \<le> length Tr1" using Suc.prems(2) by simp
  have "d = nat (j1 + 1 - (i0 + 1))" using Suc.hyps(2) by simp
  then show ?case using Suc.hyps(1) [of "i0 + 1" Tr1 st1] Suc.prems(1) m1 h by simp
qed

text \<open>
  A rung at which \<open>n / eta ^ (i + 1)\<close> is at least 1 returns a smaller pool than it was
  given, in a bracket that began with \<open>n\<close> configurations, \<open>n\<close> of at most 53 bits.
\<close>

lemma rung_shrinks:
  assumes ok: "argsort_ok (argsort E)" and eta: "1 < eta" and n: "n \<le> 2 ^ 53"
    and len: "length Tr = nat n" and i: "0 \<le> i"
    and h: "halving E eta n r [0..i - 1] Tr st = Some (Tr_i, st_i)"
    and big: "eta ^ (nat i + 1) \<le> n"
    and r: "rung E eta n r i Tr_i st_i = Some (Tr', st')"
  shows "length Tr' < length Tr_i"
proof (cases "i = 0")
  case True
  then have t: "Tr_i = Tr" using h by simp
  have en: "eta \<le> n" using big True by simp
  then have np: "0 < n" using eta by simp
  have k: "keep_count eta n i = Some (n div eta)" using eta True by (simp add: keep_count_0)
  have k0: "0 \<le> n div eta" using np eta by (simp add: pos_imp_zdiv_nonneg_iff)
  have "length Tr' = min (length Tr_i) (nat (n div eta))"
    using rung_pool_size [OF ok i k k0 r] .
  moreover have "n div eta < n" using np eta by (rule int_div_less_self)
  ultimately show ?thesis using t len np by simp
next
  case False
  then have ip: "0 < i" using i by simp
  obtain k0 ki where ki: "keep_count eta n 0 = Some k0" "keep_count eta n i = Some ki"
    "0 \<le> ki" "ki < k0" "ki < n"
    using keep_count_strict [OF eta n _ ip big] by auto
  have lower: "\<exists>k. keep_count eta n j = Some k \<and> int (nat ki + 1) \<le> k"
    if j0: "0 \<le> j" and j1: "j \<le> i - 1" for j
  proof -
    have "j < i" using j1 by simp
    then obtain kj ki' where "keep_count eta n j = Some kj" "keep_count eta n i = Some ki'" "ki' < kj"
      using keep_count_strict [OF eta n j0 _ big] by blast
    then show ?thesis using ki(2,3) by auto
  qed
  have "nat ki + 1 \<le> length Tr" using len ki(3,5) by simp
  then have "nat ki + 1 \<le> length Tr_i"
    using halving_pool_lower [OF ok lower, of "i - 1" 0 Tr r st Tr_i st_i] h by simp
  moreover have "length Tr' = min (length Tr_i) (nat ki)"
    using rung_pool_size [OF ok i ki(2,3) r] .
  ultimately show ?thesis by simp
qed

subsection \<open>The stable ranking\<close>





subsection \<open>The schedule of the script\<close>

text \<open>
  The script runs with \<open>eta = 3\<close> and \<open>max_iter = 60\<close>: four brackets, of 27, 9, 6 and 4
  configurations (line 358 in floor division), and at every rung the count that line 400
  computes in doubles is the whole quotient \<open>n div 3 ^ (i + 1)\<close>.
\<close>

lemma bracket_n_script:
  "bracket_n 3 60 (B 3 60) 3 = Some 27" "bracket_n 3 60 (B 3 60) 2 = Some 9"
  "bracket_n 3 60 (B 3 60) 1 = Some 6" "bracket_n 3 60 (B 3 60) 0 = Some 4"
  by (simp_all add: bracket_n_value B_def)

lemma keep_count_script:
  "keep_count 3 27 0 = Some 9" "keep_count 3 27 1 = Some 3"
  "keep_count 3 27 2 = Some 1" "keep_count 3 27 3 = Some 0"
  "keep_count 3 9 0 = Some 3" "keep_count 3 9 1 = Some 1" "keep_count 3 9 2 = Some 0"
  "keep_count 3 6 0 = Some 2" "keep_count 3 6 1 = Some 0"
  "keep_count 3 4 0 = Some 1"
  by code_simp+

lemma script_bracket_cases:
  assumes "0 \<le> s" "s \<le> 3" "bracket_n 3 60 (B 3 60) s = Some n"
  shows "(s = 3 \<and> n = 27) \<or> (s = 2 \<and> n = 9) \<or> (s = 1 \<and> n = 6) \<or> (s = 0 \<and> n = 4)"
proof -
  consider "s = 0" | "s = 1" | "s = 2" | "s = 3" using assms(1,2) by linarith
  then show ?thesis using assms(3) by cases (simp_all add: bracket_n_script)
qed

lemma script_counts:
  assumes "0 \<le> s" "s \<le> 3" "bracket_n 3 60 (B 3 60) s = Some n" "0 \<le> j" "j \<le> s"
  shows "keep_count 3 n j = Some (n div 3 ^ (nat j + 1))"
proof -
  consider "j = 0" | "j = 1" | "j = 2" | "j = 3" using assms(2,4,5) by linarith
  then show ?thesis
    using script_bracket_cases [OF assms(1-3)] assms(5)
    by cases (auto simp add: keep_count_script)
qed




text \<open>The budgets of the first and the last bracket, in doubles.\<close>

lemma bracket_r_script:
  "bracket_r 3 60 3 = Some (PyFloat (fl (60 / 27)))" "bracket_r 3 60 0 = Some (PyInt 60)"
proof -
  have a: "fl (fl 60 * fl (1 / fl 3 ^ 3)) = fl (60 / 27)" by code_simp
  show "bracket_r 3 60 3 = Some (PyFloat (fl (60 / 27)))"
    by (simp add: bracket_r_def py_pow_def a)
  show "bracket_r 3 60 0 = Some (PyInt 60)" by (simp add: bracket_r_def py_pow_def)
qed

text \<open>
  Away from the script's constants the rounding shows: \<^verbatim>\<open>343*7**(-2)\<close> is the double
  below 7 and \<^verbatim>\<open>19683*3**(-6)\<close> the double below 27, so these rungs keep 0 and 8
  configurations where the whole quotients are 1 and 9.
\<close>

lemma keep_count_rounded:
  "float_n_i 7 343 2 = Some (7 - 1 / 2 ^ 50)" "keep_count 7 343 2 = Some 0" "343 div 7 ^ 3 = (1::int)"
  "float_n_i 3 19683 6 = Some (27 - 1 / 2 ^ 48)" "keep_count 3 19683 6 = Some 8" "19683 div 3 ^ 7 = (9::int)"
  by code_simp+

section \<open>The claims\<close>

subsection \<open>C1: the bracket's configuration count and budget\<close>

text \<open>
  C1 says that every bracket \<open>s\<close> starts with \<open>n = ceil (B / max_iter / (s + 1) * eta ^ s)\<close>
  configurations, the quotient taken in real arithmetic, and with the budget
  \<open>r = max_iter * eta ^ (- s)\<close>. The script's own constants are \<open>eta = 3\<close> and
  \<open>max_iter = 60\<close>, so \<open>B = 240\<close>. At bracket \<open>s = 2\<close> line 358 computes
  \<open>240 / 60 / 3\<close> as the floor division \<open>4 div 3 = 1\<close> and starts with \<open>1 * 9 = 9\<close>
  configurations, where the formula of the claim gives \<open>ceil (4 / 3 * 9) = 12\<close>.
  The brackets \<open>s = 3\<close>, \<open>1\<close> and \<open>0\<close> get 27, 6 and 4 configurations either way, and
  the budgets are the double nearest to \<open>60 / 27\<close> at \<open>s = 3\<close> and the int \<open>60\<close> at
  \<open>s = 0\<close>, as the claim says.
\<close>

theorem bracket_n_floor_division:
  "bracket_n 3 60 (B 3 60) 2 = Some 9 \<and> spec_n 3 60 (B 3 60) 2 = 12
   \<and> map (bracket_n 3 60 (B 3 60)) [3, 1, 0] = map (\<lambda>s. Some (spec_n 3 60 (B 3 60) s)) [3, 1, 0]
   \<and> map (bracket_n 3 60 (B 3 60)) [3, 1, 0] = [Some 27, Some 6, Some 4]
   \<and> bracket_r 3 60 3 = Some (PyFloat (fl (60 / 27))) \<and> bracket_r 3 60 0 = Some (PyInt 60)"
proof -
  have s: "spec_n 3 60 (B 3 60) 2 = 12" "spec_n 3 60 (B 3 60) 3 = 27"
    "spec_n 3 60 (B 3 60) 1 = 6" "spec_n 3 60 (B 3 60) 0 = 4"
    by (simp_all add: spec_n_def B_def)
  show ?thesis by (simp add: bracket_n_script s bracket_r_script)
qed

subsection \<open>C2: what a rung keeps\<close>



subsection \<open>C3: what a bracket leaves behind\<close>

text \<open>
  C3 says that after its final rung a bracket hands the best configuration left in the
  pool and its score to the outer loop, and that this pool is not empty. In the bracket
  \<open>s = 1\<close> of the script (\<open>n = 6\<close>) the pool goes from 6 to 2 to 0 configurations: the
  final rung keeps \<open>int (2.0 / 3) = 0\<close>.
\<close>

theorem final_pool_counterexample:
  "map_option fst (bracket demo_env 3 60 (B 3 60) 1 init_state) = Some []"
  by code_simp

text \<open>
  C3 as amended: every bracket \<open>s\<close> of the script (\<open>eta = 3\<close>, \<open>max_iter = 60\<close>, so
  \<open>s_max = 3\<close>) runs to its end and leaves a pool of exactly
  \<open>(s_max + 1) div (s + 1) div eta\<close> configurations: none for \<open>s = 3\<close>, 2 and 1, and one
  for \<open>s = 0\<close>. No configuration is handed on, the next bracket starts from the search
  state alone. What the bracket leaves is in that state: \<open>best_val_acc\<close> is at least the
  accuracy of every evaluation of the bracket and at least what it was before.
\<close>

theorem bracket_leaves_no_result:
  assumes ok: "argsort_ok (argsort E)"
    and sm: "s_max 3 60 = Some sm" and s: "0 \<le> s" "s \<le> sm"
  shows "\<exists>Tr' st' new. bracket E 3 60 (B sm 60) s st = Some (Tr', st')
           \<and> length Tr' = nat ((sm + 1) div (s + 1) div 3)
           \<and> (0 < s \<longrightarrow> Tr' = [])
           \<and> (s = 0 \<longrightarrow> length Tr' = 1)
           \<and> calls st' = calls st @ new
           \<and> (\<forall>c \<in> set new. fst (snd (snd c)) \<le> best_val_acc st')
           \<and> best_val_acc st \<le> best_val_acc st'
           \<and> brackets E 3 60 (B sm 60) (s # ss) st
               = brackets E 3 60 (B sm 60) ss st'"
proof -
  have sm3: "sm = 3" using sm by (simp add: s_max_3_60)
  have s3: "s \<le> 3" using s sm3 by simp
  have pos: "(0::int) < 3" and nz: "(3::int) \<noteq> 0" "(60::int) \<noteq> 0" by simp_all
  obtain n where n: "bracket_n 3 60 (B 3 60) s = Some n"
    using bracket_n_total [OF nz(2) s(1)] by blast
  have cases: "(s = 3 \<and> n = 27) \<or> (s = 2 \<and> n = 9) \<or> (s = 1 \<and> n = 6) \<or> (s = 0 \<and> n = 4)"
    using script_bracket_cases [OF s(1) s3 n] .
  have nn: "0 \<le> n" using cases by auto
  have exact: "keep_count 3 n j = Some (n div 3 ^ (nat j + 1))" if "0 \<le> j" "j \<le> s" for j
    using script_counts [OF s(1) s3 n that] .
  obtain r where r: "bracket_r 3 60 s = Some r" using bracket_r_total [OF nz(1)] by blast
  let ?pool = "sample_pool E n st"
  obtain Tr' st' where b: "bracket E 3 60 (B 3 60) s st = Some (Tr', st')"
    using bracket_total [OF ok nz s(1)] by blast
  then have h: "halving E 3 n r [0..s] (fst ?pool) (snd ?pool) = Some (Tr', st')"
    using n r by (simp add: bracket_def Let_def)
  have "length (fst ?pool) = nat (n div 3 ^ nat 0)" by (simp add: sample_pool_def)
  then have l: "length Tr' = nat (n div 3 ^ nat (s + 1))"
    using halving_pool_size [OF ok pos nn exact, of s 0 s "fst ?pool" r "snd ?pool" Tr' st'] s h
    by simp
  have len: "length Tr' = nat ((sm + 1) div (s + 1) div 3)"
    using cases l sm3 by auto
  have empty: "0 < s \<longrightarrow> Tr' = []" using cases l by auto
  have one: "s = 0 \<longrightarrow> length Tr' = 1" using cases l by auto
  have "tracked st st'" using b tracked_refl
  proof (rule bracket_invariant)
    show "tracked st (snd (evaluate E r t (vl, st1)))" if "tracked st st1" for r t vl st1
      using that by (rule tracked_evaluate)
    show "tracked st (st1\<lparr>draws := d\<rparr>)" if "tracked st st1" for st1 d
      using that by (rule tracked_draws)
  qed
  then obtain new where new: "calls st' = calls st @ new"
    "\<forall>c \<in> set new. fst (snd (snd c)) \<le> best_val_acc st'" "best_val_acc st \<le> best_val_acc st'"
    by (auto simp add: tracked_def)
  have b': "bracket E 3 60 (B sm 60) s st = Some (Tr', st')" using b sm3 by simp
  have next_bracket: "brackets E 3 60 (B sm 60) (s # ss) st = brackets E 3 60 (B sm 60) ss st'"
    using b' by simp
  show ?thesis
    by (rule exI [of _ Tr'], rule exI [of _ st'], rule exI [of _ new])
       (intro conjI b' len empty one new next_bracket)
qed

theorem bracket_leaves_no_result_witness:
  "s_max 3 60 = Some 3
   \<and> (\<exists>Tr' st' new. bracket demo_env 3 60 (B 3 60) 1 init_state = Some (Tr', st')
         \<and> length Tr' = nat ((3 + 1) div (1 + 1) div 3)
         \<and> (0 < (1::int) \<longrightarrow> Tr' = [])
         \<and> ((1::int) = 0 \<longrightarrow> length Tr' = 1)
         \<and> calls st' = calls init_state @ new
         \<and> (\<forall>c \<in> set new. fst (snd (snd c)) \<le> best_val_acc st')
         \<and> best_val_acc init_state \<le> best_val_acc st'
         \<and> brackets demo_env 3 60 (B 3 60) [1, 0] init_state
             = brackets demo_env 3 60 (B 3 60) [0] st')
   \<and> (\<exists>Tr' st' new. bracket demo_env 3 60 (B 3 60) 0 init_state = Some (Tr', st')
         \<and> length Tr' = nat ((3 + 1) div (0 + 1) div 3)
         \<and> (0 < (0::int) \<longrightarrow> Tr' = [])
         \<and> ((0::int) = 0 \<longrightarrow> length Tr' = 1)
         \<and> calls st' = calls init_state @ new
         \<and> (\<forall>c \<in> set new. fst (snd (snd c)) \<le> best_val_acc st')
         \<and> best_val_acc init_state \<le> best_val_acc st'
         \<and> brackets demo_env 3 60 (B 3 60) [0] init_state
             = brackets demo_env 3 60 (B 3 60) [] st')"
proof -
  have s: "(0::int) \<le> 1" "(1::int) \<le> 3" and s0: "(0::int) \<le> 0" "(0::int) \<le> 3" by simp_all
  note t = bracket_leaves_no_result [OF demo_env_ok s_max_3_60 s, of init_state "[0]"]
  note t0 = bracket_leaves_no_result [OF demo_env_ok s_max_3_60 s0, of init_state "[]"]
  show ?thesis by (intro conjI s_max_3_60 t t0)
qed

subsection \<open>C4: the number of brackets and the budget per bracket\<close>

text \<open>
  C4: for every \<open>eta > 1\<close> and \<open>max_iter \<ge> 1\<close>, line 350 returns without an error;
  \<open>s_max\<close> is the floor of the quotient of the two logarithms as line 349 computes it
  (two doubles and their double quotient) and is not negative, and
  \<open>B = (s_max + 1) * max_iter\<close> of line 351 is a positive whole number; for \<open>eta = 3\<close> and
  \<open>max_iter = 60\<close> they are 3 and 240. (\<open>eta\<close> and \<open>max_iter\<close> are Python ints in
  the script.)
\<close>

theorem s_max_nonneg_B_positive:
  assumes "1 < eta" "1 \<le> max_iter"
  shows "\<exists>sm. s_max eta max_iter = Some sm
            \<and> sm = \<lfloor>fl (fl (ln (fl (of_int max_iter))) / fl (ln (fl (of_int eta))))\<rfloor>
            \<and> 0 \<le> sm \<and> B sm max_iter = (sm + 1) * max_iter \<and> 0 < B sm max_iter
            \<and> s_max 3 60 = Some 3 \<and> B 3 60 = 240"
proof -
  let ?q = "fl (fl (ln (fl (of_int max_iter))) / fl (ln (fl (of_int eta))))"
  have q: "0 \<le> ?q" using assms by (rule logeta_nonneg(2))
  have sm: "s_max eta max_iter = Some \<lfloor>?q\<rfloor>" using assms by (rule s_max_value)
  have nn: "0 \<le> \<lfloor>?q\<rfloor>" using q by simp
  then have "0 < (\<lfloor>?q\<rfloor> + 1) * max_iter" using assms by simp
  then have b: "B \<lfloor>?q\<rfloor> max_iter = (\<lfloor>?q\<rfloor> + 1) * max_iter \<and> 0 < B \<lfloor>?q\<rfloor> max_iter"
    by (simp add: B_def)
  have "B 3 60 = 240" by (simp add: B_def)
  then show ?thesis using sm nn b s_max_3_60 by blast
qed

theorem s_max_nonneg_B_positive_witness:
  "(1::int) < 3 \<and> (1::int) \<le> 60
   \<and> (\<exists>sm. s_max 3 60 = Some sm
         \<and> sm = \<lfloor>fl (fl (ln (fl (of_int 60))) / fl (ln (fl (of_int 3))))\<rfloor>
         \<and> 0 \<le> sm \<and> B sm 60 = (sm + 1) * 60 \<and> 0 < B sm 60)"
  using s_max_nonneg_B_positive [of 3 60] by simp

subsection \<open>C5: rungs over an empty pool\<close>

text \<open>
  C5: once a rung has left the pool empty, the rungs still scheduled run without an
  error and without an evaluation: they return the empty pool and the state as it was
  (no call of \<^verbatim>\<open>main\<close>, no line logged), whatever \<open>n\<close>, \<open>r\<close> and the rung indices are.
\<close>

theorem empty_pool_runs_no_evaluation:
  assumes ok: "argsort_ok (argsort E)" and nz: "eta \<noteq> 0"
  shows "halving E eta n r rungs [] st = Some ([], st)
         \<and> (rung E eta n r i Tr st = Some ([], st') \<longrightarrow> halving E eta n r (i # rungs) Tr st = Some ([], st'))"
proof -
  have e: "halving E eta n r rungs [] st = Some ([], st)" for st
    by (induction rungs) (simp_all add: rung_empty_pool [OF ok nz])
  then show ?thesis by simp
qed

theorem empty_pool_runs_no_evaluation_witness:
  "halving demo_env 3 5 (PyInt 20) [2] [] init_state = Some ([], init_state)
   \<and> (\<exists>st'. rung demo_env 3 5 (PyInt 20) 1 [get_random_hyperparameter_configuration (0, 0, 0, 0)] init_state
              = Some ([], st')
           \<and> length (calls st') = 1
           \<and> halving demo_env 3 5 (PyInt 20) [1, 2] [get_random_hyperparameter_configuration (0, 0, 0, 0)] init_state
              = Some ([], st'))"
proof -
  let ?c = "get_random_hyperparameter_configuration (0, 0, 0, 0)"
  let ?r = "rung demo_env 3 5 (PyInt 20) 1 [?c] init_state"
  have e: "map_option (\<lambda>p. (fst p, length (calls (snd p)))) ?r = Some ([], 1)"
    by code_simp
  obtain st' where r: "?r = Some ([], st')" and l: "length (calls st') = 1"
  proof (cases ?r)
    case None
    with e show ?thesis by simp
  next
    case (Some p)
    with e have "?r = Some ([], snd p)" and "length (calls (snd p)) = 1"
      by (simp_all add: prod_eq_iff)
    then show ?thesis by (rule that)
  qed
  have nz: "(3::int) \<noteq> 0" by simp
  note t = empty_pool_runs_no_evaluation [OF demo_env_ok nz, of 5 "PyInt 20" "[2]" init_state 1 "[?c]" st']
  have a: "halving demo_env 3 5 (PyInt 20) [2] [] init_state = Some ([], init_state)"
    using t by (rule conjunct1)
  have b: "halving demo_env 3 5 (PyInt 20) [1, 2] [?c] init_state = Some ([], st')"
    by (rule mp [OF conjunct2 [OF t] r])
  show ?thesis
    by (rule conjI [OF a], rule exI [of _ st'], intro conjI r l b)
qed

subsection \<open>C6: the best accuracy never goes down\<close>

text \<open>
  C6: \<open>best_val_acc\<close> never decreases over the evaluations of the whole search, in
  whatever order the brackets \<open>ss\<close> are run: it starts at 0, the values logged after each
  evaluation ascend up to the final value, and one evaluation never lowers it.
\<close>

theorem best_val_acc_never_decreases:
  assumes "brackets E eta max_iter Bv ss init_state = Some st"
  shows "sorted (0 # map snd (hyperband_evals st) @ [best_val_acc st])
         \<and> (\<forall>st0 r t vl. best_val_acc st0 \<le> best_val_acc (snd (evaluate E r t (vl, st0))))"
proof -
  let ?P = "\<lambda>st. sorted (0 # map snd (hyperband_evals st) @ [best_val_acc st])"
  have "?P init_state" by (simp add: init_state_def)
  with assms have "?P st"
  proof (rule brackets_invariant)
    show "?P (snd (evaluate E r t (vl, st)))" if "?P st" for r t vl st
      using that by (rule evaluate_best_monotone)
    show "?P (st\<lparr>draws := d\<rparr>)" if "?P st" for st d
      using that by simp
  qed
  moreover have "best_val_acc st0 \<le> best_val_acc (snd (evaluate E r t (vl, st0)))" for st0 r t vl
    by (simp add: evaluate_def Let_def)
  ultimately show ?thesis by blast
qed

theorem best_val_acc_never_decreases_witness:
  "\<exists>st. brackets demo_env 3 60 (B 3 60) [0, 1] init_state = Some st
        \<and> map snd (hyperband_evals st) = [0, 37, 37, 37, 48, 48, 48, 48, 48, 48, 48, 48]
        \<and> best_val_acc st = 48
        \<and> sorted (0 # map snd (hyperband_evals st) @ [best_val_acc st])"
proof -
  let ?b = "brackets demo_env 3 60 (B 3 60) [0, 1] init_state"
  have e: "map_option (\<lambda>st. (map snd (hyperband_evals st), best_val_acc st)) ?b
           = Some ([0, 37, 37, 37, 48, 48, 48, 48, 48, 48, 48, 48], 48)"
    by code_simp
  obtain st where b: "?b = Some st"
    and v: "map snd (hyperband_evals st) = [0, 37, 37, 37, 48, 48, 48, 48, 48, 48, 48, 48]"
    and w: "best_val_acc st = 48"
  proof (cases ?b)
    case None
    with e show ?thesis by simp
  next
    case (Some st)
    with e have "map snd (hyperband_evals st) = [0, 37, 37, 37, 48, 48, 48, 48, 48, 48, 48, 48]"
      and "best_val_acc st = 48" by simp_all
    with Some show ?thesis by (rule that)
  qed
  have s: "sorted (0 # map snd (hyperband_evals st) @ [best_val_acc st])"
    using best_val_acc_never_decreases [OF b] by (rule conjunct1)
  show ?thesis by (rule exI [of _ st]) (intro conjI b v w s)
qed

subsection \<open>C7: the pool shrinks\<close>

text \<open>
  C7: in a bracket that starts with \<open>n\<close> configurations, the pool after rung \<open>i\<close> is
  never larger than the pool before it, and it is strictly smaller whenever
  \<open>n_i / eta \<ge> 1\<close>, where \<open>n_i = n / eta ^ i\<close>. The counts are those line 400 computes
  in doubles; the strict part is proved for a pool of at most \<open>2 ^ 53\<close> configurations,
  the range in which an int converts to a double unchanged.
\<close>

theorem pool_size_non_increasing:
  assumes ok: "argsort_ok (argsort E)" and eta: "1 < eta" and n: "0 \<le> n" and len: "length Tr = nat n"
    and i: "0 \<le> i" and h: "halving E eta n r [0..i - 1] Tr st = Some (Tr_i, st_i)"
  shows "\<exists>Tr' st'. rung E eta n r i Tr_i st_i = Some (Tr', st')
           \<and> length Tr' \<le> length Tr_i
           \<and> (n \<le> 2 ^ 53 \<longrightarrow> 1 \<le> real_of_int n / real_of_int eta ^ nat i / real_of_int eta
                \<longrightarrow> length Tr' < length Tr_i)"
proof -
  have pos: "0 < eta" and nz: "eta \<noteq> 0" using eta by simp_all
  obtain Tr' st' where r: "rung E eta n r i Tr_i st_i = Some (Tr', st')"
    using rung_total [OF ok nz] by blast
  have le: "length Tr' \<le> length Tr_i" using ok r by (rule rung_length_le)
  have "length Tr' < length Tr_i"
    if small: "n \<le> 2 ^ 53" and big: "1 \<le> real_of_int n / real_of_int eta ^ nat i / real_of_int eta"
  proof -
    have "real_of_int n / real_of_int eta ^ nat i / real_of_int eta = real_of_int n / real_of_int (eta ^ (nat i + 1))"
      by (simp add: field_simps)
    then have "1 \<le> real_of_int n / real_of_int (eta ^ (nat i + 1))" using big by (simp only:)
    moreover have p: "0 < real_of_int (eta ^ (nat i + 1))" using pos by simp
    ultimately have "real_of_int (eta ^ (nat i + 1)) \<le> real_of_int n"
      by (simp add: pos_le_divide_eq del: of_int_power power_Suc)
    then have ge: "eta ^ (nat i + 1) \<le> n" by (simp only: of_int_le_iff)
    show ?thesis using rung_shrinks [OF ok eta small len i h ge r] .
  qed
  then show ?thesis using r le by blast
qed

theorem pool_size_non_increasing_witness:
  "(9::int) \<le> 2 ^ 53 \<and> (1::real) \<le> real_of_int 9 / real_of_int 3 ^ nat 0 / real_of_int 3
   \<and> (\<exists>Tr' st'. rung demo_env 3 9 (PyInt 60) 0 demo_pool demo_start = Some (Tr', st')
           \<and> length Tr' \<le> length demo_pool
           \<and> ((9::int) \<le> 2 ^ 53 \<longrightarrow> 1 \<le> real_of_int 9 / real_of_int 3 ^ nat 0 / real_of_int 3
                \<longrightarrow> length Tr' < length demo_pool))"
proof -
  have small: "(9::int) \<le> 2 ^ 53" by simp
  have big: "(1::real) \<le> real_of_int 9 / real_of_int 3 ^ nat 0 / real_of_int 3" by simp
  have eta: "(1::int) < 3" and n: "(0::int) \<le> 9" and i: "(0::int) \<le> 0" by simp_all
  note t = pool_size_non_increasing [OF demo_env_ok eta n demo_pool_length i demo_pool_start]
  show ?thesis by (intro conjI small big t)
qed

subsection \<open>C8: one log record per evaluation\<close>

text \<open>
  C8: the search logs exactly one record per evaluation, the pair of the cost summed
  over all evaluations so far and the best accuracy seen so far; the two totals start at 0
  once, before the first bracket, and are never reset: the log is \<open>expected_log 0 0\<close> of
  the whole history of calls, and the totals at the end are its last record.
\<close>

theorem one_record_per_evaluation:
  assumes "hyperband E eta max_iter = Some st"
  shows "hyperband_evals st = expected_log 0 0 (calls st)
         \<and> length (hyperband_evals st) = length (calls st)
         \<and> (nevals st, best_val_acc st) = last ((0, 0) # hyperband_evals st)"
proof -
  from assms obtain sm where
    b: "brackets E eta max_iter (B sm max_iter) (rev [0..sm]) init_state = Some st"
    by (auto simp add: hyperband_def split: bind_splits)
  have "totals_logged init_state" by (simp add: totals_logged_def init_state_def)
  with b have "totals_logged st"
  proof (rule brackets_invariant)
    show "totals_logged (snd (evaluate E r t (vl, st)))" if "totals_logged st" for r t vl st
      using that by (rule evaluate_totals_logged)
    show "totals_logged (st\<lparr>draws := d\<rparr>)" if "totals_logged st" for st d
      using that by (simp add: totals_logged_def)
  qed
  then show ?thesis by (simp add: totals_logged_def expected_log_length)
qed

theorem one_record_per_evaluation_witness:
  "\<exists>st. hyperband demo_env 3 3 = Some st
        \<and> hyperband_evals st = [(1, 0), (2, 37), (3, 37), (4, 37), (5, 48), (6, 48)]
        \<and> hyperband_evals st = expected_log 0 0 (calls st)
        \<and> length (hyperband_evals st) = length (calls st)
        \<and> (nevals st, best_val_acc st) = last ((0, 0) # hyperband_evals st)"
proof -
  let ?b = "brackets demo_env 3 3 (B 1 3) [1, 0] init_state"
  have e: "map_option hyperband_evals ?b
           = Some [(1, 0), (2, 37), (3, 37), (4, 37), (5, 48), (6, 48)]"
    by code_simp
  obtain st where b: "hyperband demo_env 3 3 = Some st"
    and v: "hyperband_evals st = [(1, 0), (2, 37), (3, 37), (4, 37), (5, 48), (6, 48)]"
  proof (cases ?b)
    case None
    with e show ?thesis by simp
  next
    case (Some st)
    with e have "hyperband_evals st = [(1, 0), (2, 37), (3, 37), (4, 37), (5, 48), (6, 48)]"
      by simp
    moreover have "hyperband demo_env 3 3 = Some st" using Some by (simp only: hyperband_3_3)
    ultimately show ?thesis by (rule that [rotated])
  qed
  note t = one_record_per_evaluation [OF b]
  show ?thesis by (rule exI [of _ st]) (intro conjI b v t [THEN conjunct1] t [THEN conjunct2, THEN conjunct1] t [THEN conjunct2, THEN conjunct2])
qed

subsection \<open>C9: the batch size\<close>

text \<open>
  C9 says that the batch size is \<open>2 ^ (4 + 4 x)\<close> truncated, for the draw \<open>x\<close> of
  \<open>[0, 1)\<close>, and that it is a power of two. Line 314 truncates the power, so the result
  is a power of two only where the exponent is whole: the draw \<open>x = 1 / 8\<close> gives
  \<open>int (2 ^ 4.5) = 22\<close>.
\<close>

theorem batch_size_not_power_of_two:
  "unit_double (1 / 8)
   \<and> batch_size_train (get_random_hyperparameter_configuration (0, 1 / 8, 0, 0)) = 22
   \<and> \<not> power_of_two (batch_size_train (get_random_hyperparameter_configuration (0, 1 / 8, 0, 0)))"
  using unit_double_eighth not_power_of_two_22
  by (simp only: sampler_fields batch_size_eighth) simp

text \<open>
  C9 as amended: for every draw \<open>x\<close> the batch size is the truncation of the (double
  nearest to the) power \<open>2 ^ y\<close>, where \<open>y\<close> is the double nearest to \<open>4 + 4 x\<close> and
  lies in \<open>[4, 8]\<close>; it lies between the power of two \<open>2 ^ floor y\<close> and the next one,
  and it is the power of two \<open>2 ^ y\<close> itself where \<open>y\<close> is a whole number.
\<close>

theorem batch_size_between_powers:
  assumes "unit_double x1"
  shows "batch_size_train (get_random_hyperparameter_configuration (x0, x1, x2, x3))
           = trunc (fl (2 powr fl (4 + 4 * x1)))
         \<and> 4 \<le> fl (4 + 4 * x1) \<and> fl (4 + 4 * x1) \<le> 8
         \<and> 2 ^ nat \<lfloor>fl (4 + 4 * x1)\<rfloor>
             \<le> batch_size_train (get_random_hyperparameter_configuration (x0, x1, x2, x3))
         \<and> batch_size_train (get_random_hyperparameter_configuration (x0, x1, x2, x3))
             \<le> 2 ^ (nat \<lfloor>fl (4 + 4 * x1)\<rfloor> + 1)
         \<and> (fl (4 + 4 * x1) = of_int \<lfloor>fl (4 + 4 * x1)\<rfloor>
              \<longrightarrow> batch_size_train (get_random_hyperparameter_configuration (x0, x1, x2, x3))
                    = 2 ^ nat \<lfloor>fl (4 + 4 * x1)\<rfloor>
                  \<and> power_of_two (batch_size_train (get_random_hyperparameter_configuration (x0, x1, x2, x3))))"
proof -
  let ?y = "fl (4 + 4 * x1)"
  let ?b = "batch_size_train (get_random_hyperparameter_configuration (x0, x1, x2, x3))"
  have x: "0 \<le> x1" "x1 < 1" "fl x1 = x1" using assms by (simp_all add: unit_double_def)
  have f4: "fl (4 * x1) = 4 * x1" using x(3) by (rule fl_times_4)
  have b: "?b = trunc (fl (2 powr ?y))" by (simp only: sampler_fields f4)
  have y: "4 \<le> ?y" "?y \<le> 8" using exponent_range [OF x(1,2)] by (simp_all only: f4)
  have e: "0 \<le> \<lfloor>?y\<rfloor>" using y(1) by simp
  have lo: "of_int \<lfloor>?y\<rfloor> \<le> ?y" and hi: "?y \<le> of_int \<lfloor>?y\<rfloor> + 1" by linarith+
  note pb = power_between [OF lo hi e]
  have whole: "trunc (fl (2 powr ?y)) = 2 ^ nat \<lfloor>?y\<rfloor> \<and> power_of_two (trunc (fl (2 powr ?y)))"
    if w: "?y = of_int \<lfloor>?y\<rfloor>"
  proof -
    have "2 powr ?y = 2 powr of_int \<lfloor>?y\<rfloor>" using w by simp
    also have "\<dots> = 2 ^ nat \<lfloor>?y\<rfloor>" using e by (simp add: powr_int)
    finally have p: "2 powr ?y = 2 ^ nat \<lfloor>?y\<rfloor>" .
    have "fl (2 powr ?y) = real_of_int (2 ^ nat \<lfloor>?y\<rfloor>)" unfolding p by (simp add: fl_two_power)
    then have "trunc (fl (2 powr ?y)) = 2 ^ nat \<lfloor>?y\<rfloor>" by (simp only: trunc_def) simp
    then show ?thesis using power_of_two_power by simp
  qed
  show ?thesis unfolding b using y pb whole by blast
qed

theorem batch_size_between_powers_witness:
  "unit_double (1 / 4)
   \<and> batch_size_train (get_random_hyperparameter_configuration (0, 1 / 4, 0, 0))
       = trunc (fl (2 powr fl (4 + 4 * (1 / 4))))
   \<and> 2 ^ nat \<lfloor>fl (4 + 4 * (1 / 4))\<rfloor>
       \<le> batch_size_train (get_random_hyperparameter_configuration (0, 1 / 4, 0, 0))
   \<and> batch_size_train (get_random_hyperparameter_configuration (0, 1 / 4, 0, 0))
       \<le> 2 ^ (nat \<lfloor>fl (4 + 4 * (1 / 4))\<rfloor> + 1)"
  using batch_size_between_powers [OF unit_double_quarter, of 0 0 0] unit_double_quarter
  by blast

subsection \<open>C10: the ranges of the sampler\<close>

text \<open>
  C10 says that for every draw the sampler returns \<open>nfilters\<close> in \<open>[10, 99]\<close>,
  \<open>batch_size_train\<close> in \<open>[16, 255]\<close> (256 never), \<open>M\<close> in \<open>[0, 1)\<close> and \<open>LR\<close> in
  \<open>[10 ^ - 2, 10 ^ - 0.5)\<close>, each monotone in its coordinate. The largest double below 1
  is \<open>1 - 2 ^ - 53\<close>: there \<^verbatim>\<open>4.0*x[1]\<close> is \<open>4 - 2 ^ - 51\<close>, and the sum
  \<^verbatim>\<open>4.0 + 4.0*x[1]\<close>, \<open>8 - 2 ^ - 51\<close>, lies halfway between the doubles
  \<open>8 - 2 ^ - 50\<close> and \<open>8\<close> and rounds to the even one, 8. Line 314 returns
  \<open>int (2 ^ 8) = 256\<close>, the upper end its comment gives.
\<close>

theorem batch_size_256:
  "unit_double (1 - 1 / 2 ^ 53)
   \<and> batch_size_train (get_random_hyperparameter_configuration (0, 1 - 1 / 2 ^ 53, 0, 0)) = 256"
  using unit_double_top by (simp only: sampler_fields batch_size_top)

text \<open>
  C10 as amended: for every draw of four doubles of \<open>[0, 1)\<close>, \<open>nfilters\<close> lies in
  \<open>[10, 99]\<close>, \<open>batch_size_train\<close> in \<open>[16, 256]\<close>, \<open>M\<close> in \<open>[0, 1)\<close> and \<open>LR\<close> in
  \<open>[10 ^ - 2, 10 ^ - 0.5)\<close>, and each of the four is monotone non-decreasing in its
  coordinate of the draw.
\<close>

theorem sampler_ranges:
  assumes "unit_double x0" "unit_double x1" "unit_double x2" "unit_double x3"
  shows "10 \<le> nfilters (get_random_hyperparameter_configuration (x0, x1, x2, x3))
       \<and> nfilters (get_random_hyperparameter_configuration (x0, x1, x2, x3)) \<le> 99
       \<and> 16 \<le> batch_size_train (get_random_hyperparameter_configuration (x0, x1, x2, x3))
       \<and> batch_size_train (get_random_hyperparameter_configuration (x0, x1, x2, x3)) \<le> 256
       \<and> 0 \<le> M (get_random_hyperparameter_configuration (x0, x1, x2, x3))
       \<and> M (get_random_hyperparameter_configuration (x0, x1, x2, x3)) < 1
       \<and> 10 powr (- 2) \<le> LR (get_random_hyperparameter_configuration (x0, x1, x2, x3))
       \<and> LR (get_random_hyperparameter_configuration (x0, x1, x2, x3)) < 10 powr (- 1 / 2)
       \<and> (x0 \<le> y0 \<longrightarrow> nfilters (get_random_hyperparameter_configuration (x0, x1, x2, x3))
                        \<le> nfilters (get_random_hyperparameter_configuration (y0, y1, y2, y3)))
       \<and> (x1 \<le> y1 \<longrightarrow> batch_size_train (get_random_hyperparameter_configuration (x0, x1, x2, x3))
                        \<le> batch_size_train (get_random_hyperparameter_configuration (y0, y1, y2, y3)))
       \<and> (x2 \<le> y2 \<longrightarrow> M (get_random_hyperparameter_configuration (x0, x1, x2, x3))
                        \<le> M (get_random_hyperparameter_configuration (y0, y1, y2, y3)))
       \<and> (x3 \<le> y3 \<longrightarrow> LR (get_random_hyperparameter_configuration (x0, x1, x2, x3))
                        \<le> LR (get_random_hyperparameter_configuration (y0, y1, y2, y3)))"
proof -
  have x1: "0 \<le> x1" "x1 < 1" and x2: "0 \<le> x2" "x2 < 1"
    using assms by (simp_all add: unit_double_def)
  note nf = nfilters_range [OF assms(1)]
  note bs = batch_range [OF x1]
  note lr = LR_range [OF assms(4)]
  have a: "10 \<le> 10 + trunc (fl (90 * x0))" "10 + trunc (fl (90 * x0)) \<le> 99" using nf by simp_all
  have m0: "x0 \<le> y0 \<longrightarrow> 10 + trunc (fl (90 * x0)) \<le> 10 + trunc (fl (90 * y0))"
    using nfilters_mono [of x0 y0] by simp
  have m1: "x1 \<le> y1 \<longrightarrow> trunc (fl (2 powr fl (4 + fl (4 * x1)))) \<le> trunc (fl (2 powr fl (4 + fl (4 * y1))))"
    using batch_mono [of x1 y1] by simp
  have m3: "x3 \<le> y3 \<longrightarrow> fl (10 powr fl (- 2 + fl (1.5 * x3))) \<le> fl (10 powr fl (- 2 + fl (1.5 * y3)))"
    using LR_mono [of x3 y3] by simp
  show ?thesis unfolding sampler_fields
    by (intro conjI a bs x2 lr m0 m1 m3) simp
qed

theorem sampler_ranges_witness:
  "unit_double (1 / 2)
   \<and> 10 \<le> nfilters (get_random_hyperparameter_configuration (1 / 2, 1 / 2, 1 / 2, 1 / 2))
   \<and> nfilters (get_random_hyperparameter_configuration (1 / 2, 1 / 2, 1 / 2, 1 / 2)) \<le> 99
   \<and> 16 \<le> batch_size_train (get_random_hyperparameter_configuration (1 / 2, 1 / 2, 1 / 2, 1 / 2))
   \<and> batch_size_train (get_random_hyperparameter_configuration (1 / 2, 1 / 2, 1 / 2, 1 / 2)) \<le> 256
   \<and> 10 powr (- 2) \<le> LR (get_random_hyperparameter_configuration (1 / 2, 1 / 2, 1 / 2, 1 / 2))
   \<and> LR (get_random_hyperparameter_configuration (1 / 2, 1 / 2, 1 / 2, 1 / 2)) < 10 powr (- 1 / 2)
   \<and> LR (get_random_hyperparameter_configuration (1 / 2, 1 / 2, 1 / 2, 1 / 2))
       \<le> LR (get_random_hyperparameter_configuration (1, 1, 1, 1))"
  using sampler_ranges [OF unit_double_half unit_double_half unit_double_half unit_double_half, of 1 1 1 1]
    unit_double_half
  by simp

end
